theory Spec2Isabelle
  imports Main "HOL-Library.Word"
begin

section \<open>The proxy configuration manager (agent/proxycfg/manager.go)\<close>

text \<open>
  A shallow embedding of \<^verbatim>\<open>Manager\<close>. Every method that runs with \<^verbatim>\<open>m.mu\<close> held is a
  function from the manager (together with the part of the Go heap it points into) to the
  manager afterwards. Go maps are partial functions; a \<^verbatim>\<open>range\<close> over a map visits the
  keys in an order that Go leaves open, so each loop takes the order as an argument and the
  theorems hold for every order. Pointers are addresses into total stores with an allocation
  counter. A panic or a send that can never complete is a \<open>fault\<close>.
\<close>

subsection \<open>Data\<close>

datatype ServiceKind = ServiceKindTypical | ServiceKindConnectProxy

text \<open>\<^verbatim>\<open>structs.NodeService\<close>: the manager reads \<^verbatim>\<open>ID\<close> and \<^verbatim>\<open>Kind\<close>; the port stands for
  the rest of the service definition, which only the watch state inspects.\<close>

record NodeService =
  ID :: string
  Kind :: ServiceKind
  Port :: int

text \<open>\<^verbatim>\<open>ConfigSnapshot\<close>: routed by \<^verbatim>\<open>ProxyID\<close>, content opaque.\<close>

record ConfigSnapshot =
  ProxyID :: string
  Content :: nat

text \<open>A Go channel: its buffer, its capacity and whether it has been closed.\<close>

record 'a chan =
  buf :: "'a list"
  cap :: nat
  ch_closed :: bool

datatype error = ErrStopped | ErrConfig | ErrNewState | ErrWatch

datatype fault = PanicCloseOfClosedChannel | PanicSendOnClosedChannel | BlockedForever

text \<open>Modelled from the spec: the per-proxy watch state (\<^verbatim>\<open>state\<close>, whose file is not among
  the sources). It is constructed from a service descriptor and a token, is given the
  manager's cache, source and logger, starts a snapshot stream, holds the most recent
  snapshot or none, and has a shutdown operation that terminates the stream.\<close>

record state =
  st_proxyID :: string
  st_ns :: NodeService
  st_token :: string
  st_deps :: bool
  st_snap :: "ConfigSnapshot option"
  st_watching :: bool
  st_closed :: bool

text \<open>A watch state is live while its stream runs: started and not shut down.\<close>

definition live :: "state \<Rightarrow> bool" where
  "live s = (st_watching s \<and> \<not> st_closed s)"

text \<open>What the watch state answers when the manager calls it: its change test, and whether
  construction and stream start fail for a descriptor and token.\<close>

record collab =
  Changed :: "state \<Rightarrow> NodeService \<Rightarrow> string \<Rightarrow> bool"
  newState_fails :: "NodeService \<Rightarrow> string \<Rightarrow> bool"
  Watch_fails :: "NodeService \<Rightarrow> string \<Rightarrow> bool"

text \<open>\<^verbatim>\<open>ManagerConfig\<close>: four pointers, each nil or not.\<close>

record ManagerConfig =
  Cache :: "nat option"
  State :: "nat option"
  Source :: "nat option"
  Logger :: "nat option"

text \<open>The local service registry as one pass sees it: \<^verbatim>\<open>State.Services()\<close> and
  \<^verbatim>\<open>State.ServiceToken(id)\<close>.\<close>

record LocalState =
  Services :: "string \<rightharpoonup> NodeService"
  ServiceToken :: "string \<Rightarrow> string"

text \<open>Calls made on collaborators and channels, in the order they happen.\<close>

datatype event =
    EvStateClose nat
  | EvNewState nat
  | EvNewStateFailed string
  | EvStateWatch nat
  | EvStateWatchFailed nat
  | EvForward nat
  | EvChanClose nat
  | EvSend nat ConfigSnapshot
  | EvStateChClose nat
  | EvLog string error
  | EvNotify nat
  | EvStopNotify nat

text \<open>The \<^verbatim>\<open>Manager\<close> struct (\<open>cfg\<close>, \<open>stateCh\<close>, \<open>proxies\<close>, \<open>watchers\<close>) and the heap it points
  into: the change-signal channels, the watch states and the delivery queues.\<close>

record Manager =
  cfg :: ManagerConfig
  stateCh :: "nat option"
  proxies :: "string \<rightharpoonup> nat"
  watchers :: "string \<rightharpoonup> (64 word \<rightharpoonup> nat)"
  sigStore :: "nat \<Rightarrow> unit chan"
  stateStore :: "nat \<Rightarrow> state"
  nextState :: nat
  chanStore :: "nat \<Rightarrow> ConfigSnapshot chan"
  nextChan :: nat
  trace :: "event list"

type_synonym CancelFunc = "string \<times> 64 word"

subsection \<open>Construction\<close>

text \<open>The struct literal of \<^verbatim>\<open>NewManager\<close>: a fresh change-signal channel with a buffer of
  one at address 0, two empty maps, and nothing allocated yet in the other stores.\<close>

definition init_Manager :: "ManagerConfig \<Rightarrow> Manager" where
  "init_Manager c =
     \<lparr>cfg = c, stateCh = Some 0, proxies = Map.empty, watchers = Map.empty,
      sigStore = (\<lambda>_. \<lparr>buf = [], cap = 1, ch_closed = False\<rparr>),
      stateStore = (\<lambda>_. \<lparr>st_proxyID = [], st_ns = \<lparr>ID = [], Kind = ServiceKindTypical, Port = 0\<rparr>,
                           st_token = [], st_deps = False, st_snap = None,
                           st_watching = False, st_closed = True\<rparr>),
      nextState = 0,
      chanStore = (\<lambda>_. \<lparr>buf = [], cap = 1, ch_closed = True\<rparr>),
      nextChan = 0, trace = []\<rparr>"

definition NewManager :: "ManagerConfig \<Rightarrow> error + Manager" where
  "NewManager c =
     (if Cache c = None \<or> State c = None \<or> Source c = None \<or> Logger c = None
      then Inl ErrConfig
      else Inr (init_Manager c))"

subsection \<open>Proxy lifecycle\<close>

text \<open>Modelled from the spec: \<^verbatim>\<open>state.Close()\<close>, the shutdown operation of the watch state
  (its file is not among the sources), on the watch state at address \<open>r\<close>: the stream of
  the watch state ends.\<close>

definition state_Close :: "nat \<Rightarrow> Manager \<Rightarrow> Manager" where
  "state_Close r m =
     m\<lparr>stateStore := (stateStore m)(r := (stateStore m r)\<lparr>st_closed := True\<rparr>),
       trace := trace m @ [EvStateClose r]\<rparr>"

text \<open>Modelled from the spec: a successful \<^verbatim>\<open>newState(ns, token)\<close>, the constructor of the
  watch state (its file is not among the sources), followed by the injection of the
  dependencies: the new watch state is allocated at \<open>nextState\<close>, built from the
  descriptor and the token, with no snapshot and no stream yet.\<close>

definition newState :: "NodeService \<Rightarrow> string \<Rightarrow> Manager \<Rightarrow> Manager" where
  "newState ns token m =
     m\<lparr>stateStore := (stateStore m)(nextState m :=
          \<lparr>st_proxyID = ID ns, st_ns = ns, st_token = token, st_deps = True,
           st_snap = None, st_watching = False, st_closed = False\<rparr>),
       nextState := Suc (nextState m),
       trace := trace m @ [EvNewState (nextState m)]\<rparr>"

text \<open>Modelled from the spec: a successful \<^verbatim>\<open>state.Watch()\<close>, the stream start of the watch
  state (its file is not among the sources): the stream of the watch state at \<open>r\<close>
  starts.\<close>

definition state_Watch :: "nat \<Rightarrow> Manager \<Rightarrow> Manager" where
  "state_Watch r m =
     m\<lparr>stateStore := (stateStore m)(r := (stateStore m r)\<lparr>st_watching := True\<rparr>),
       trace := trace m @ [EvStateWatch r]\<rparr>"

text \<open>Lines 156 to 181 of \<^verbatim>\<open>ensureProxyServiceLocked\<close>: construct, start, record, and start
  the goroutine that forwards the stream to \<^verbatim>\<open>notify\<close>.\<close>

definition ensure_new :: "collab \<Rightarrow> NodeService \<Rightarrow> string \<Rightarrow> Manager \<Rightarrow> error option \<times> Manager" where
  "ensure_new env ns token m =
     (if newState_fails env ns token
      then (Some ErrNewState, m\<lparr>trace := trace m @ [EvNewStateFailed (ID ns)]\<rparr>)
      else let r = nextState m; m1 = newState ns token m in
        if Watch_fails env ns token
        then (Some ErrWatch, m1\<lparr>trace := trace m1 @ [EvStateWatchFailed r]\<rparr>)
        else let m2 = state_Watch r m1;
                 m3 = m2\<lparr>proxies := (proxies m2)(ID ns \<mapsto> r)\<rparr>
             in (None, m3\<lparr>trace := trace m3 @ [EvForward r]\<rparr>))"

definition ensureProxyServiceLocked ::
  "collab \<Rightarrow> NodeService \<Rightarrow> string \<Rightarrow> Manager \<Rightarrow> error option \<times> Manager" where
  "ensureProxyServiceLocked env ns token m =
     (case proxies m (ID ns) of
        Some r \<Rightarrow>
          if \<not> Changed env (stateStore m r) ns token then (None, m)
          else ensure_new env ns token (state_Close r m)
      | None \<Rightarrow> ensure_new env ns token m)"

definition removeProxyServiceLocked :: "string \<Rightarrow> Manager \<Rightarrow> Manager" where
  "removeProxyServiceLocked proxyID m =
     (case proxies m proxyID of
        None \<Rightarrow> m
      | Some r \<Rightarrow> let m1 = state_Close r m in m1\<lparr>proxies := (proxies m1)(proxyID := None)\<rparr>)"

subsection \<open>One reconciliation pass of Run\<close>

text \<open>The body of the first loop of a pass, for the registry key \<open>svcID\<close>.\<close>

definition ensure_step :: "collab \<Rightarrow> LocalState \<Rightarrow> string \<Rightarrow> Manager \<Rightarrow> Manager" where
  "ensure_step env st svcID m =
     (case Services st svcID of
        None \<Rightarrow> m
      | Some svc \<Rightarrow>
          if Kind svc \<noteq> ServiceKindConnectProxy then m
          else (case ensureProxyServiceLocked env svc (ServiceToken st svcID) m of
                  (None, m') \<Rightarrow> m'
                | (Some err, m') \<Rightarrow> m'\<lparr>trace := trace m' @ [EvLog (ID svc) err]\<rparr>))"

text \<open>The body of the second loop of a pass, for the tracked key \<open>proxyID\<close>.\<close>

definition remove_step :: "LocalState \<Rightarrow> string \<Rightarrow> Manager \<Rightarrow> Manager" where
  "remove_step st proxyID m =
     (if Services st proxyID = None then removeProxyServiceLocked proxyID m else m)"

text \<open>A pass: \<open>sorder\<close> is the order in which the registry is ranged over, \<open>porder\<close> the
  order in which the tracked proxies are ranged over afterwards.\<close>

definition ensure_all :: "collab \<Rightarrow> LocalState \<Rightarrow> string list \<Rightarrow> Manager \<Rightarrow> Manager" where
  "ensure_all env st sorder m = fold (ensure_step env st) sorder m"

definition remove_all :: "LocalState \<Rightarrow> string list \<Rightarrow> Manager \<Rightarrow> Manager" where
  "remove_all st porder m = fold (remove_step st) porder m"

definition pass :: "collab \<Rightarrow> LocalState \<Rightarrow> string list \<Rightarrow> string list \<Rightarrow> Manager \<Rightarrow> Manager" where
  "pass env st sorder porder m = remove_all st porder (ensure_all env st sorder m)"

text \<open>An order is a range over a map when it lists every key once.\<close>

definition range_of :: "('k \<rightharpoonup> 'v) \<Rightarrow> 'k list \<Rightarrow> bool" where
  "range_of mp ks = (distinct ks \<and> set ks = dom mp)"

text \<open>The registry is keyed by the identifier of each service.\<close>

definition keyed_by_ID :: "LocalState \<Rightarrow> bool" where
  "keyed_by_ID st = (\<forall>k\<in>dom (Services st). map_option ID (Services st k) = Some k)"

subsection \<open>Channels\<close>

text \<open>\<^verbatim>\<open>close(ch)\<close> on a delivery queue: closing a closed channel panics.\<close>

definition chan_close :: "nat \<Rightarrow> Manager \<Rightarrow> fault + Manager" where
  "chan_close ch m =
     (if ch_closed (chanStore m ch) then Inl PanicCloseOfClosedChannel
      else Inr (m\<lparr>chanStore := (chanStore m)(ch := (chanStore m ch)\<lparr>ch_closed := True\<rparr>),
                  trace := trace m @ [EvChanClose ch]\<rparr>))"

text \<open>\<^verbatim>\<open>ch <- snap\<close> with the lock held: a send on a closed channel panics, a send into a
  buffer with room returns at once, and a send into a full buffer waits for a receiver.
  No receiver runs inside a call of the manager, so there the call does not return.\<close>

definition chan_send :: "nat \<Rightarrow> ConfigSnapshot \<Rightarrow> Manager \<Rightarrow> fault + Manager" where
  "chan_send ch snap m =
     (if ch_closed (chanStore m ch) then Inl PanicSendOnClosedChannel
      else if length (buf (chanStore m ch)) < cap (chanStore m ch)
      then Inr (m\<lparr>chanStore := (chanStore m)(ch := (chanStore m ch)\<lparr>buf := buf (chanStore m ch) @ [snap]\<rparr>),
                  trace := trace m @ [EvSend ch snap]\<rparr>)
      else Inl BlockedForever)"

text \<open>The \<^verbatim>\<open>select\<close> of \<^verbatim>\<open>notify\<close>: the send, or the 100ms timer. With no receiver taking a
  value during the wait, a full buffer means the timer wins and the delivery is skipped.\<close>

definition chan_try_send :: "nat \<Rightarrow> ConfigSnapshot \<Rightarrow> Manager \<Rightarrow> fault + Manager" where
  "chan_try_send ch snap m =
     (if ch_closed (chanStore m ch) then Inl PanicSendOnClosedChannel
      else if length (buf (chanStore m ch)) < cap (chanStore m ch)
      then Inr (m\<lparr>chanStore := (chanStore m)(ch := (chanStore m ch)\<lparr>buf := buf (chanStore m ch) @ [snap]\<rparr>),
                  trace := trace m @ [EvSend ch snap]\<rparr>)
      else Inr m)"

text \<open>A loop whose body can panic: the first fault ends it.\<close>

fun range_loop :: "('a \<Rightarrow> 's \<Rightarrow> fault + 's) \<Rightarrow> 'a list \<Rightarrow> 's \<Rightarrow> fault + 's" where
  "range_loop f [] s = Inr s"
| "range_loop f (x # xs) s = (case f x s of Inl e \<Rightarrow> Inl e | Inr s' \<Rightarrow> range_loop f xs s')"

subsection \<open>Watcher registry and broadcast\<close>

definition notify :: "ConfigSnapshot \<Rightarrow> 64 word list \<Rightarrow> Manager \<Rightarrow> fault + Manager" where
  "notify snap order m =
     (case watchers m (ProxyID snap) of
        None \<Rightarrow> Inr m
      | Some ws \<Rightarrow>
          range_loop (\<lambda>k m'. case ws k of None \<Rightarrow> Inr m' | Some ch \<Rightarrow> chan_try_send ch snap m')
            order m)"

text \<open>\<^verbatim>\<open>Watch\<close> returns the queue and the cancel function; the cancel function is the closure
  over \<open>proxyID\<close> and \<open>idx\<close>, so it is that pair.\<close>

definition Watch :: "string \<Rightarrow> Manager \<Rightarrow> fault + ((nat \<times> CancelFunc) \<times> Manager)" where
  "Watch proxyID m =
     (let ch = nextChan m;
          m1 = m\<lparr>chanStore := (chanStore m)(ch := \<lparr>buf = [], cap = 1, ch_closed = False\<rparr>),
                 nextChan := Suc ch\<rparr>;
          ws = (case watchers m1 proxyID of Some ws \<Rightarrow> ws | None \<Rightarrow> Map.empty);
          idx = (of_nat (card (dom ws)) :: 64 word);
          m2 = m1\<lparr>watchers := (watchers m1)(proxyID \<mapsto> ws(idx \<mapsto> ch))\<rparr>
      in case proxies m2 proxyID of
           None \<Rightarrow> Inr ((ch, (proxyID, idx)), m2)
         | Some r \<Rightarrow>
             (case st_snap (stateStore m2 r) of
                None \<Rightarrow> Inr ((ch, (proxyID, idx)), m2)
              | Some snap \<Rightarrow>
                  (case chan_send ch snap m2 of
                     Inl f \<Rightarrow> Inl f
                   | Inr m3 \<Rightarrow> Inr ((ch, (proxyID, idx)), m3))))"

definition closeWatchLocked :: "string \<Rightarrow> 64 word \<Rightarrow> Manager \<Rightarrow> fault + Manager" where
  "closeWatchLocked proxyID watchIdx m =
     (case watchers m proxyID of
        None \<Rightarrow> Inr m
      | Some ws \<Rightarrow>
          (case ws watchIdx of
             None \<Rightarrow> Inr m
           | Some ch \<Rightarrow>
               let ws' = ws(watchIdx := None);
                   m1 = m\<lparr>watchers := (watchers m)(proxyID \<mapsto> ws')\<rparr>
               in (case chan_close ch m1 of
                     Inl f \<Rightarrow> Inl f
                   | Inr m2 \<Rightarrow>
                       if card (dom ws') = 0
                       then Inr (m2\<lparr>watchers := (watchers m2)(proxyID := None)\<rparr>)
                       else Inr m2)))"

text \<open>Calling the cancel function returned by \<^verbatim>\<open>Watch\<close>.\<close>

definition cancel :: "CancelFunc \<Rightarrow> Manager \<Rightarrow> fault + Manager" where
  "cancel c m = closeWatchLocked (fst c) (snd c) m"

subsection \<open>Shutdown\<close>

definition close_stateCh :: "Manager \<Rightarrow> fault + Manager" where
  "close_stateCh m =
     (case stateCh m of
        None \<Rightarrow> Inr m
      | Some sc \<Rightarrow>
          if ch_closed (sigStore m sc) then Inl PanicCloseOfClosedChannel
          else Inr (m\<lparr>sigStore := (sigStore m)(sc := (sigStore m sc)\<lparr>ch_closed := True\<rparr>),
                      stateCh := None,
                      trace := trace m @ [EvStateChClose sc]\<rparr>))"

definition close_watchers_step :: "string \<times> 64 word list \<Rightarrow> Manager \<Rightarrow> fault + Manager" where
  "close_watchers_step pw m = range_loop (closeWatchLocked (fst pw)) (snd pw) m"

definition close_state_step :: "string \<Rightarrow> Manager \<Rightarrow> Manager" where
  "close_state_step proxyID m =
     (case proxies m proxyID of
        None \<Rightarrow> m
      | Some r \<Rightarrow> let m1 = state_Close r m in m1\<lparr>proxies := (proxies m1)(proxyID := None)\<rparr>)"

text \<open>\<^verbatim>\<open>Close\<close>: \<open>worder\<close> is the order of the range over the watchers, each proxy with the
  order of the range over its watchers; \<open>porder\<close> is the order of the range over the
  proxies. A normal return is the nil error.\<close>

definition Close :: "(string \<times> 64 word list) list \<Rightarrow> string list \<Rightarrow> Manager \<Rightarrow> fault + Manager" where
  "Close worder porder m =
     (case close_stateCh m of
        Inl f \<Rightarrow> Inl f
      | Inr m1 \<Rightarrow>
          (case range_loop close_watchers_step worder m1 of
             Inl f \<Rightarrow> Inl f
           | Inr m2 \<Rightarrow> Inr (fold close_state_step porder m2)))"

text \<open>The orders of \<^verbatim>\<open>Close\<close> are ranges over the two maps of the manager.\<close>

definition worder_of :: "Manager \<Rightarrow> (string \<times> 64 word list) list \<Rightarrow> bool" where
  "worder_of m worder =
     (range_of (watchers m) (map fst worder) \<and>
      (\<forall>pw\<in>set worder. case watchers m (fst pw) of
                          None \<Rightarrow> False
                        | Some ws \<Rightarrow> range_of ws (snd pw)))"

subsection \<open>Run\<close>

text \<open>How a wait on the change signal ends: a notification, or the channel was closed.\<close>

datatype wake = Signalled | ChannelClosed

text \<open>One turn of the loop of \<^verbatim>\<open>Run\<close>: what the registry holds, how the watch states
  answer, the two range orders, and how the wait after the pass ends.\<close>

record round =
  rd_env :: collab
  rd_state :: LocalState
  rd_sorder :: "string list"
  rd_porder :: "string list"
  rd_wake :: wake

datatype run_result = Returned "error option" | Waiting

text \<open>The loop of \<^verbatim>\<open>Run\<close> over the turns that happen; when they are used up the call has
  not returned.\<close>

fun run_loop :: "nat \<Rightarrow> round list \<Rightarrow> Manager \<Rightarrow> run_result \<times> Manager" where
  "run_loop sc [] m = (Waiting, m)"
| "run_loop sc (r # rs) m =
     (let m1 = pass (rd_env r) (rd_state r) (rd_sorder r) (rd_porder r) m in
      case rd_wake r of
        ChannelClosed \<Rightarrow> (Returned None, m1\<lparr>trace := trace m1 @ [EvStopNotify sc]\<rparr>)
      | Signalled \<Rightarrow> run_loop sc rs m1)"

definition Run :: "round list \<Rightarrow> Manager \<Rightarrow> run_result \<times> Manager" where
  "Run rounds m =
     (case stateCh m of
        None \<Rightarrow> (Returned (Some ErrStopped), m)
      | Some sc \<Rightarrow> run_loop sc rounds (m\<lparr>trace := trace m @ [EvNotify sc]\<rparr>))"

subsection \<open>Histories of a manager\<close>

text \<open>The operations that run on a manager under its lock: a registration, a cancellation,
  a broadcast by a forwarding goroutine, a pass of the loop of \<^verbatim>\<open>Run\<close>, a shutdown, and a
  watch state producing a snapshot.\<close>

datatype op =
    OpWatch string
  | OpCancel CancelFunc
  | OpNotify ConfigSnapshot "64 word list"
  | OpPass collab LocalState "string list" "string list"
  | OpClose "(string \<times> 64 word list) list" "string list"
  | OpSnapshot nat ConfigSnapshot

fun is_close :: "op \<Rightarrow> bool" where
  "is_close (OpClose wo po) = True"
| "is_close _ = False"

fun exec :: "op \<Rightarrow> Manager \<Rightarrow> fault + Manager" where
  "exec (OpWatch p) m = (case Watch p m of Inl f \<Rightarrow> Inl f | Inr (res, m') \<Rightarrow> Inr m')"
| "exec (OpCancel c) m = cancel c m"
| "exec (OpNotify snap order) m = notify snap order m"
| "exec (OpPass env st so po) m = Inr (pass env st so po m)"
| "exec (OpClose wo po) m = Close wo po m"
| "exec (OpSnapshot r snap) m =
     Inr (m\<lparr>stateStore := (stateStore m)(r := (stateStore m r)\<lparr>st_snap := Some snap\<rparr>)\<rparr>)"

definition exec_all :: "op list \<Rightarrow> Manager \<Rightarrow> fault + Manager" where
  "exec_all ops m = range_loop exec ops m"

text \<open>The operations that cancel a watcher of the proxy \<open>p\<close>: its cancel functions, and a
  shutdown.\<close>

fun cancels :: "string \<Rightarrow> op \<Rightarrow> bool" where
  "cancels p (OpCancel c) = (fst c = p)"
| "cancels p (OpClose wo po) = True"
| "cancels p (OpWatch q) = False"
| "cancels p (OpNotify snap order) = False"
| "cancels p (OpPass env st so po) = False"
| "cancels p (OpSnapshot r snap) = False"

subsection \<open>Outcomes and derived notions\<close>

text \<open>Construction and stream start both succeed for a descriptor and token.\<close>

definition builds :: "collab \<Rightarrow> NodeService \<Rightarrow> string \<Rightarrow> bool" where
  "builds env ns token = (\<not> newState_fails env ns token \<and> \<not> Watch_fails env ns token)"

text \<open>The watchers registered for a proxy (none when the outer map has no entry), and the
  identifier that \<^verbatim>\<open>Watch\<close> derives from their count.\<close>

definition watchers_of :: "Manager \<Rightarrow> string \<Rightarrow> (64 word \<rightharpoonup> nat)" where
  "watchers_of m p = (case watchers m p of Some ws \<Rightarrow> ws | None \<Rightarrow> Map.empty)"

definition next_idx :: "Manager \<Rightarrow> string \<Rightarrow> 64 word" where
  "next_idx m p = of_nat (card (dom (watchers_of m p)))"

text \<open>What \<^verbatim>\<open>Watch\<close> delivers at once: the current snapshot of the tracked watch state, if any.\<close>

definition snapshot_of :: "Manager \<Rightarrow> string \<Rightarrow> ConfigSnapshot list" where
  "snapshot_of m p =
     (case proxies m p of
        None \<Rightarrow> []
      | Some r \<Rightarrow> (case st_snap (stateStore m r) of None \<Rightarrow> [] | Some snap \<Rightarrow> [snap]))"

text \<open>The delivery queues that the watcher map refers to.\<close>

definition registered :: "Manager \<Rightarrow> nat set" where
  "registered m = {c. \<exists>p ws i. watchers m p = Some ws \<and> ws i = Some c}"

text \<open>The manager after a history that runs without a fault.\<close>

definition after :: "op list \<Rightarrow> Manager \<Rightarrow> Manager" where
  "after ops m = (case exec_all ops m of Inr m' \<Rightarrow> m' | Inl f \<Rightarrow> m)"

subsection \<open>Invariants of the watcher registry\<close>

text \<open>What holds of the watcher map in every manager that the operations produce: no proxy
  has an empty watcher set, every registered queue is allocated and open, and no queue is
  registered twice.\<close>

definition wf_watchers :: "Manager \<Rightarrow> bool" where
  "wf_watchers m =
     ((\<forall>p ws. watchers m p = Some ws \<longrightarrow> ws \<noteq> Map.empty) \<and>
      (\<forall>p ws i c. watchers m p = Some ws \<longrightarrow> ws i = Some c \<longrightarrow>
          c < nextChan m \<and> \<not> ch_closed (chanStore m c)) \<and>
      (\<forall>p ws i p' ws' i' c. watchers m p = Some ws \<longrightarrow> ws i = Some c \<longrightarrow>
          watchers m p' = Some ws' \<longrightarrow> ws' i' = Some c \<longrightarrow> p = p' \<and> i = i'))"

text \<open>The fields that a pass over the registry does not touch.\<close>

definition same_watchers :: "Manager \<Rightarrow> Manager \<Rightarrow> bool" where
  "same_watchers m m' =
     (watchers m' = watchers m \<and> chanStore m' = chanStore m \<and> nextChan m' = nextChan m \<and>
      stateCh m' = stateCh m \<and> sigStore m' = sigStore m \<and> cfg m' = cfg m)"

text \<open>An allocated queue that no watcher entry refers to, in a manager where it holds what it
  held in \<open>m\<close>.\<close>

definition orphan :: "Manager \<Rightarrow> nat \<Rightarrow> bool" where
  "orphan m c = (c < nextChan m \<and> c \<notin> registered m)"

definition kept :: "Manager \<Rightarrow> nat \<Rightarrow> Manager \<Rightarrow> bool" where
  "kept m c s = (orphan s c \<and> chanStore s c = chanStore m c)"

text \<open>The identifiers in use for the proxy \<open>p\<close> are exactly those below the number of its
  watchers.\<close>

definition ids_below_count :: "Manager \<Rightarrow> string \<Rightarrow> bool" where
  "ids_below_count m p =
     (dom (watchers_of m p) = {i. unat i < card (dom (watchers_of m p))})"

text \<open>The change-signal channel that the manager holds has not been closed.\<close>

definition sig_open :: "Manager \<Rightarrow> bool" where
  "sig_open m = (case stateCh m of None \<Rightarrow> True | Some sc \<Rightarrow> \<not> ch_closed (sigStore m sc))"

subsection \<open>Invariants of the proxy registry\<close>

text \<open>Among the allocated watch states, no two live ones belong to the same proxy.\<close>

definition one_live :: "Manager \<Rightarrow> bool" where
  "one_live m =
     (\<forall>r<nextState m. \<forall>r'<nextState m.
        live (stateStore m r) \<and> live (stateStore m r') \<and>
        st_proxyID (stateStore m r) = st_proxyID (stateStore m r') \<longrightarrow> r = r')"

text \<open>Every live watch state is the one that the proxy map holds for its proxy.\<close>

definition tracked_live :: "Manager \<Rightarrow> bool" where
  "tracked_live m =
     (\<forall>r<nextState m. live (stateStore m r) \<longrightarrow>
        proxies m (st_proxyID (stateStore m r)) = Some r)"

text \<open>Every watch state that the proxy map refers to has been allocated.\<close>

definition refs_below :: "Manager \<Rightarrow> bool" where
  "refs_below m = (\<forall>p r. proxies m p = Some r \<longrightarrow> r < nextState m)"

text \<open>No live watch state belongs to the proxy \<open>p\<close>.\<close>

definition none_live :: "Manager \<Rightarrow> string \<Rightarrow> bool" where
  "none_live m p =
     (\<forall>r<nextState m. live (stateStore m r) \<longrightarrow> st_proxyID (stateStore m r) \<noteq> p)"

text \<open>The fields that the watcher registry does not touch.\<close>

definition same_states :: "Manager \<Rightarrow> Manager \<Rightarrow> bool" where
  "same_states m m' =
     (proxies m' = proxies m \<and> stateStore m' = stateStore m \<and> nextState m' = nextState m)"

subsection \<open>Concrete inputs\<close>

text \<open>Modelled from the spec: the change test of the watch state (its file is not among the
  sources): a descriptor and token are a change when they differ from what the watch state
  was built with.\<close>

definition state_Changed :: "state \<Rightarrow> NodeService \<Rightarrow> string \<Rightarrow> bool" where
  "state_Changed s ns token = (ns \<noteq> st_ns s \<or> token \<noteq> st_token s)"

definition env_ok :: collab where
  "env_ok = \<lparr>Changed = state_Changed, newState_fails = (\<lambda>ns token. False),
             Watch_fails = (\<lambda>ns token. False)\<rparr>"

definition env_failing :: collab where
  "env_failing = \<lparr>Changed = state_Changed, newState_fails = (\<lambda>ns token. True),
                  Watch_fails = (\<lambda>ns token. False)\<rparr>"

definition ex_cfg :: ManagerConfig where
  "ex_cfg = \<lparr>Cache = Some 0, State = Some 1, Source = Some 2, Logger = Some 3\<rparr>"

definition web_proxy :: NodeService where
  "web_proxy = \<lparr>ID = ''web'', Kind = ServiceKindConnectProxy, Port = 8080\<rparr>"

definition web_typical :: NodeService where
  "web_typical = \<lparr>ID = ''web'', Kind = ServiceKindTypical, Port = 8080\<rparr>"

definition registry_proxy :: LocalState where
  "registry_proxy = \<lparr>Services = [''web'' \<mapsto> web_proxy], ServiceToken = (\<lambda>k. ''T1'')\<rparr>"

definition registry_typical :: LocalState where
  "registry_typical = \<lparr>Services = [''web'' \<mapsto> web_typical], ServiceToken = (\<lambda>k. ''T1'')\<rparr>"

text \<open>A manager that tracks the proxy \<open>web\<close>: a new manager after one pass over a registry
  that holds \<open>web\<close> as a connect proxy.\<close>

definition tracking_web :: Manager where
  "tracking_web = pass env_ok registry_proxy [''web''] [''web''] (init_Manager ex_cfg)"

definition web_snapshot :: ConfigSnapshot where
  "web_snapshot = \<lparr>ProxyID = ''web'', Content = 1\<rparr>"

text \<open>The manager that tracks \<open>web\<close>, after the watch state of \<open>web\<close> has produced a snapshot.\<close>

definition tracking_web_snap :: Manager where
  "tracking_web_snap =
     tracking_web\<lparr>stateStore := (stateStore tracking_web)
        (0 := (stateStore tracking_web 0)\<lparr>st_snap := Some web_snapshot\<rparr>)\<rparr>"

text \<open>A history: a pass that starts tracking \<open>web\<close>, then a watch on \<open>web\<close>; and the manager after
  that history and a shutdown.\<close>

definition ex_history :: "op list" where
  "ex_history = [OpPass env_ok registry_proxy [''web''] [''web''], OpWatch ''web'']"

definition ex_closed :: Manager where
  "ex_closed = after [OpClose [(''web'', [0])] [''web'']] (after ex_history (init_Manager ex_cfg))"

text \<open>Two watches on \<open>web\<close> and the cancellation of the first: the remaining watcher has
  identifier 1 and the count is 1.\<close>

definition gap_history :: "op list" where
  "gap_history = [OpWatch ''web'', OpWatch ''web'', OpCancel (''web'', 0)]"

definition gap_manager :: Manager where
  "gap_manager = after gap_history (init_Manager ex_cfg)"

definition gap_manager1 :: Manager where
  "gap_manager1 = after [OpWatch ''web''] gap_manager"

definition gap_manager2 :: Manager where
  "gap_manager2 = after [OpWatch ''web''] gap_manager1"

text \<open>A history without cancellation of a watcher of \<open>web\<close>: two watches on \<open>web\<close>, with a
  watch on \<open>db\<close> and its cancellation in between.\<close>

definition watch_history :: "op list" where
  "watch_history = [OpWatch ''web'', OpWatch ''db'', OpWatch ''web'', OpCancel (''db'', 0)]"

section \<open>Properties\<close>

subsection \<open>The tracked proxies after a pass\<close>

lemma ensure_new_dom:
  "dom (proxies (snd (ensure_new env ns token m))) =
     (if builds env ns token then insert (ID ns) (dom (proxies m)) else dom (proxies m))"
  by (simp add: ensure_new_def builds_def newState_def state_Watch_def Let_def)

lemma state_Close_proxies: "proxies (state_Close r m) = proxies m"
  by (simp add: state_Close_def)

lemma ensure_dom:
  "dom (proxies (snd (ensureProxyServiceLocked env ns token m))) =
     (if builds env ns token then insert (ID ns) (dom (proxies m)) else dom (proxies m))"
  by (auto simp: ensureProxyServiceLocked_def ensure_new_dom state_Close_proxies split: option.splits)

lemma keyedD: "keyed_by_ID st \<Longrightarrow> Services st k = Some svc \<Longrightarrow> ID svc = k"
proof -
  assume a: "keyed_by_ID st" and b: "Services st k = Some svc"
  from b have "k \<in> dom (Services st)" by (simp add: domI)
  with a have "map_option ID (Services st k) = Some k" by (simp add: keyed_by_ID_def)
  with b show ?thesis by simp
qed

lemma ensure_step_dom:
  assumes "keyed_by_ID st"
  shows "dom (proxies (ensure_step env st k m)) =
     dom (proxies m) \<union> {i. i = k \<and> (\<exists>svc. Services st k = Some svc \<and> Kind svc = ServiceKindConnectProxy
                                   \<and> builds env svc (ServiceToken st k))}"
proof (cases "Services st k")
  case None
  then show ?thesis by (simp add: ensure_step_def)
next
  case (Some svc)
  with assms have id: "ID svc = k" by (rule keyedD)
  obtain e m' where r: "ensureProxyServiceLocked env svc (ServiceToken st k) m = (e, m')"
    by (cases "ensureProxyServiceLocked env svc (ServiceToken st k) m")
  have d: "dom (proxies m') = (if builds env svc (ServiceToken st k) then insert k (dom (proxies m)) else dom (proxies m))"
    using ensure_dom [of env svc "ServiceToken st k" m] r id by simp
  show ?thesis using Some r d
    by (auto simp: ensure_step_def split: option.splits)
qed

lemma ensure_all_dom:
  assumes "keyed_by_ID st"
  shows "dom (proxies (ensure_all env st ks m)) =
     dom (proxies m) \<union> {i \<in> set ks. \<exists>svc. Services st i = Some svc \<and> Kind svc = ServiceKindConnectProxy
                                   \<and> builds env svc (ServiceToken st i)}"
  unfolding ensure_all_def
proof (induction ks arbitrary: m)
  case Nil
  then show ?case by simp
next
  case (Cons k ks)
  show ?case
    by (simp add: Cons.IH ensure_step_dom [OF assms]) blast
qed

lemma remove_dom: "dom (proxies (removeProxyServiceLocked p m)) = dom (proxies m) - {p}"
  by (auto simp: removeProxyServiceLocked_def state_Close_proxies Let_def split: option.splits)

lemma remove_step_dom:
  "dom (proxies (remove_step st p m)) = dom (proxies m) - {i. i = p \<and> Services st p = None}"
  by (auto simp: remove_step_def remove_dom)

lemma remove_all_dom:
  "dom (proxies (remove_all st ps m)) = dom (proxies m) - {p \<in> set ps. Services st p = None}"
  unfolding remove_all_def
proof (induction ps arbitrary: m)
  case Nil
  then show ?case by simp
next
  case (Cons p ps)
  show ?case by (simp add: Cons.IH remove_step_dom) blast
qed

lemma pass_dom:
  assumes "keyed_by_ID st" "range_of (Services st) sorder"
    "range_of (proxies (ensure_all env st sorder m)) porder"
  shows "dom (proxies (pass env st sorder porder m)) =
     (dom (proxies m) \<inter> dom (Services st)) \<union>
     {i. \<exists>svc. Services st i = Some svc \<and> Kind svc = ServiceKindConnectProxy
                \<and> builds env svc (ServiceToken st i)}"
  using assms(2,3) unfolding pass_def remove_all_dom ensure_all_dom [OF assms(1)] range_of_def
  by (auto simp: ensure_all_dom [OF assms(1)])


text \<open>
  C1 (as amended). After one pass over a registry keyed by service identifier, for every
  identifier \<open>i\<close>: if \<open>i\<close> is not registered it is not tracked; if \<open>i\<close> is registered as a
  connect proxy whose construction and stream start succeed it is tracked; if \<open>i\<close> is
  registered as a connect proxy, was not tracked before the pass and its construction or
  stream start fails, it is not tracked; if \<open>i\<close> is registered with another kind it is
  tracked exactly when it was tracked before the pass, since the second loop removes only
  identifiers that are absent from the registry.
\<close>

theorem pass_tracked_proxies:
  assumes "keyed_by_ID st" and "range_of (Services st) sorder"
    and "range_of (proxies (ensure_all env st sorder m)) porder"
  shows "(Services st i = None \<longrightarrow> proxies (pass env st sorder porder m) i = None) \<and>
         (\<forall>svc. Services st i = Some svc \<longrightarrow>
            (Kind svc = ServiceKindConnectProxy \<and> builds env svc (ServiceToken st i)
               \<longrightarrow> proxies (pass env st sorder porder m) i \<noteq> None) \<and>
            (Kind svc = ServiceKindConnectProxy \<and> \<not> builds env svc (ServiceToken st i)
               \<and> proxies m i = None \<longrightarrow> proxies (pass env st sorder porder m) i = None) \<and>
            (Kind svc \<noteq> ServiceKindConnectProxy
               \<longrightarrow> (proxies (pass env st sorder porder m) i = None \<longleftrightarrow> proxies m i = None)))"
proof -
  have "(i \<in> dom (proxies (pass env st sorder porder m))) =
        (i \<in> (dom (proxies m) \<inter> dom (Services st)) \<union>
           {i. \<exists>svc. Services st i = Some svc \<and> Kind svc = ServiceKindConnectProxy
                \<and> builds env svc (ServiceToken st i)})"
    by (simp only: pass_dom [OF assms])
  then show ?thesis by (auto simp: domIff)
qed

lemma tracking_web_eval:
  "proxies tracking_web = [''web'' \<mapsto> 0]" "nextState tracking_web = 1"
  "stateStore tracking_web 0 = \<lparr>st_proxyID = ''web'', st_ns = web_proxy, st_token = ''T1'', st_deps = True,
           st_snap = None, st_watching = True, st_closed = False\<rparr>"
  by (simp_all add: tracking_web_def pass_def ensure_all_def remove_all_def ensure_step_def
      remove_step_def ensureProxyServiceLocked_def ensure_new_def newState_def state_Watch_def
      init_Manager_def registry_proxy_def env_ok_def web_proxy_def Let_def)

theorem pass_tracked_proxies_witness:
  "keyed_by_ID registry_proxy \<and> range_of (Services registry_proxy) [''web''] \<and>
   range_of (proxies (ensure_all env_ok registry_proxy [''web''] (init_Manager ex_cfg))) [''web''] \<and>
   builds env_ok web_proxy ''T1'' \<and>
   proxies (pass env_ok registry_proxy [''web''] [''web''] (init_Manager ex_cfg)) ''web'' \<noteq> None \<and>
   Services registry_proxy ''db'' = None \<and>
   proxies (pass env_ok registry_proxy [''web''] [''web''] (init_Manager ex_cfg)) ''db'' = None \<and>
   range_of (proxies (ensure_all env_failing registry_proxy [''web''] (init_Manager ex_cfg))) [] \<and>
   \<not> builds env_failing web_proxy ''T1'' \<and>
   proxies (pass env_failing registry_proxy [''web''] [] (init_Manager ex_cfg)) ''web'' = None \<and>
   keyed_by_ID registry_typical \<and> range_of (Services registry_typical) [''web''] \<and>
   range_of (proxies (ensure_all env_ok registry_typical [''web''] (init_Manager ex_cfg))) [] \<and>
   proxies (pass env_ok registry_typical [''web''] [] (init_Manager ex_cfg)) ''web'' = None"
proof -
  have h1: "keyed_by_ID registry_proxy"
    by (simp add: keyed_by_ID_def registry_proxy_def web_proxy_def)
  have h2: "range_of (Services registry_proxy) [''web'']"
    by (simp add: range_of_def registry_proxy_def)
  have h3: "range_of (proxies (ensure_all env_ok registry_proxy [''web''] (init_Manager ex_cfg))) [''web'']"
    by (simp add: range_of_def ensure_all_def ensure_step_def ensureProxyServiceLocked_def
        ensure_new_def newState_def state_Watch_def init_Manager_def registry_proxy_def
        env_ok_def web_proxy_def Let_def)
  have h4: "range_of (proxies (ensure_all env_failing registry_proxy [''web''] (init_Manager ex_cfg))) []"
    by (simp add: range_of_def ensure_all_def ensure_step_def ensureProxyServiceLocked_def
        ensure_new_def init_Manager_def registry_proxy_def env_failing_def web_proxy_def)
  have k1: "keyed_by_ID registry_typical"
    by (simp add: keyed_by_ID_def registry_typical_def web_typical_def)
  have k2: "range_of (Services registry_typical) [''web'']"
    by (simp add: range_of_def registry_typical_def)
  have k3: "range_of (proxies (ensure_all env_ok registry_typical [''web''] (init_Manager ex_cfg))) []"
    by (simp add: range_of_def ensure_all_def ensure_step_def init_Manager_def
        registry_typical_def web_typical_def)
  have b: "builds env_ok web_proxy ''T1''" by (simp add: builds_def env_ok_def)
  have nb: "\<not> builds env_failing web_proxy ''T1''" by (simp add: builds_def env_failing_def)
  have s: "Services registry_proxy ''web'' = Some web_proxy" "Services registry_proxy ''db'' = None"
    "ServiceToken registry_proxy ''web'' = ''T1''" "Kind web_proxy = ServiceKindConnectProxy"
    "Services registry_typical ''web'' = Some web_typical" "Kind web_typical = ServiceKindTypical"
    "proxies (init_Manager ex_cfg) ''web'' = None"
    by (simp_all add: registry_proxy_def registry_typical_def web_proxy_def web_typical_def
        init_Manager_def)
  from pass_tracked_proxies [OF h1 h2 h3, of "''web''"]
    pass_tracked_proxies [OF h1 h2 h3, of "''db''"]
    pass_tracked_proxies [OF h1 h2 h4, of "''web''"]
    pass_tracked_proxies [OF k1 k2 k3, of "''web''"]
    b nb h1 h2 h3 h4 k1 k2 k3
  show ?thesis by (simp add: s)
qed

text \<open>
  The claim as stated fails: \<open>web\<close> is tracked, then registered again under the same
  identifier with another kind. The pass skips it in the first loop and finds it in the
  registry in the second, so it stays tracked although it is no connect proxy.
\<close>

theorem pass_keeps_reregistered_counterexample:
  "keyed_by_ID registry_typical \<and> range_of (Services registry_typical) [''web''] \<and>
   range_of (proxies (ensure_all env_ok registry_typical [''web''] tracking_web)) [''web''] \<and>
   proxies (pass env_ok registry_typical [''web''] [''web''] tracking_web) ''web'' = Some 0 \<and>
   map_option Kind (Services registry_typical ''web'') = Some ServiceKindTypical"
  by (simp add: keyed_by_ID_def range_of_def pass_def ensure_all_def remove_all_def
      ensure_step_def remove_step_def registry_typical_def web_typical_def tracking_web_eval)

subsection \<open>A failed replacement\<close>

text \<open>A call that returns an error leaves the proxy map as it was.\<close>

lemma ensure_error_proxies:
  "fst (ensureProxyServiceLocked env ns token m) \<noteq> None \<Longrightarrow>
   proxies (snd (ensureProxyServiceLocked env ns token m)) = proxies m"
  by (auto simp: ensureProxyServiceLocked_def ensure_new_def newState_def state_Close_def
      Let_def split: option.splits if_splits)

text \<open>
  C3. The claim is that a call of \<^verbatim>\<open>ensureProxyServiceLocked\<close> that returns an error leaves
  the identifier untracked, also when it was tracked before. The code closes the tracked
  watch state and returns the error without touching the map: for \<open>web\<close> tracked with token
  \<open>T1\<close>, a call with token \<open>T2\<close> whose construction fails returns the error, and \<open>web\<close> is
  still mapped to the watch state at address 0, which is now closed.
\<close>

theorem ensure_error_keeps_closed_entry:
  "fst (ensureProxyServiceLocked env_failing web_proxy ''T2'' tracking_web) = Some ErrNewState \<and>
   proxies (snd (ensureProxyServiceLocked env_failing web_proxy ''T2'' tracking_web)) ''web'' = Some 0 \<and>
   st_closed (stateStore (snd (ensureProxyServiceLocked env_failing web_proxy ''T2'' tracking_web)) 0)"
  by (simp add: ensureProxyServiceLocked_def ensure_new_def state_Close_def env_failing_def
      state_Changed_def tracking_web_eval web_proxy_def)

lemma tracking_web_eval2:
  "watchers tracking_web = Map.empty" "nextChan tracking_web = 0" "stateCh tracking_web = Some 0"
  "trace tracking_web = [EvNewState 0, EvStateWatch 0, EvForward 0]"
  "chanStore tracking_web = (\<lambda>_. \<lparr>buf = [], cap = 1, ch_closed = True\<rparr>)"
  by (simp_all add: tracking_web_def pass_def ensure_all_def remove_all_def ensure_step_def
      remove_step_def ensureProxyServiceLocked_def ensure_new_def newState_def state_Watch_def
      init_Manager_def registry_proxy_def env_ok_def web_proxy_def Let_def)

subsection \<open>Removing a proxy\<close>

text \<open>
  C5. For a tracked identifier \<open>p\<close>, \<^verbatim>\<open>removeProxyServiceLocked\<close> closes the watch state of
  \<open>p\<close> and deletes the entry of \<open>p\<close> from the proxy map; the only call it makes is that
  close. The watcher map and every delivery queue (buffer and closed flag) are as before:
  no watcher entry is removed, no queue is closed and nothing is delivered. For an
  identifier that is not tracked the manager is unchanged.
\<close>

theorem remove_leaves_watchers:
  "(proxies m p = Some r \<longrightarrow>
      proxies (removeProxyServiceLocked p m) = (proxies m)(p := None) \<and>
      stateStore (removeProxyServiceLocked p m) =
         (stateStore m)(r := (stateStore m r)\<lparr>st_closed := True\<rparr>) \<and>
      trace (removeProxyServiceLocked p m) = trace m @ [EvStateClose r] \<and>
      watchers (removeProxyServiceLocked p m) = watchers m \<and>
      chanStore (removeProxyServiceLocked p m) = chanStore m \<and>
      nextChan (removeProxyServiceLocked p m) = nextChan m) \<and>
   (proxies m p = None \<longrightarrow> removeProxyServiceLocked p m = m)"
  by (simp add: removeProxyServiceLocked_def state_Close_def Let_def)

theorem remove_leaves_watchers_witness:
  "proxies tracking_web ''web'' = Some 0 \<and>
   proxies (removeProxyServiceLocked ''web'' tracking_web) = Map.empty \<and>
   st_closed (stateStore (removeProxyServiceLocked ''web'' tracking_web) 0) \<and>
   watchers (removeProxyServiceLocked ''web'' tracking_web) = watchers tracking_web \<and>
   chanStore (removeProxyServiceLocked ''web'' tracking_web) = chanStore tracking_web \<and>
   removeProxyServiceLocked ''other'' tracking_web = tracking_web"
proof -
  have h: "proxies tracking_web ''web'' = Some 0" "proxies tracking_web ''other'' = None"
    by (simp_all add: tracking_web_eval)
  from remove_leaves_watchers [of tracking_web "''web''" 0]
    remove_leaves_watchers [of tracking_web "''other''" 0] h
  show ?thesis by (simp add: tracking_web_eval)
qed

subsection \<open>Registering a watch\<close>

text \<open>
  C4. For every manager and every identifier \<open>p\<close>, tracked or not, \<^verbatim>\<open>Watch\<close> returns: it
  neither panics nor blocks. It returns a fresh open queue, registered for \<open>p\<close> under the
  identifier held by the cancel function. The queue holds exactly the current snapshot of
  the tracked watch state when \<open>p\<close> is tracked and that snapshot is not nil, and is empty
  otherwise.
\<close>

theorem Watch_never_fails:
  "\<exists>idx m'. Watch p m = Inr ((nextChan m, (p, idx)), m') \<and>
     (\<exists>ws. watchers m' p = Some ws \<and> ws idx = Some (nextChan m)) \<and>
     \<not> ch_closed (chanStore m' (nextChan m)) \<and>
     buf (chanStore m' (nextChan m)) =
       (case proxies m p of
          None \<Rightarrow> []
        | Some r \<Rightarrow> (case st_snap (stateStore m r) of None \<Rightarrow> [] | Some snap \<Rightarrow> [snap]))"
  by (simp add: Watch_def chan_send_def Let_def split: option.splits)

theorem Watch_never_fails_witness:
  "(\<exists>idx m'. Watch ''web'' tracking_web_snap = Inr ((0, (''web'', idx)), m') \<and>
              buf (chanStore m' 0) = [web_snapshot]) \<and>
   (\<exists>idx m'. Watch ''web'' tracking_web = Inr ((0, (''web'', idx)), m') \<and>
              buf (chanStore m' 0) = []) \<and>
   (\<exists>idx m'. Watch ''other'' tracking_web_snap = Inr ((0, (''other'', idx)), m') \<and>
              buf (chanStore m' 0) = [])"
  using Watch_never_fails [of "''web''" tracking_web_snap]
    Watch_never_fails [of "''web''" tracking_web]
    Watch_never_fails [of "''other''" tracking_web_snap]
  by (simp add: tracking_web_snap_def tracking_web_eval tracking_web_eval2) blast

subsection \<open>What a pass leaves alone\<close>

lemma same_watchers_refl: "same_watchers m m"
  by (simp add: same_watchers_def)

lemma same_watchers_trans: "same_watchers a b \<Longrightarrow> same_watchers b c \<Longrightarrow> same_watchers a c"
  by (simp add: same_watchers_def)

lemma state_Close_same: "same_watchers m (state_Close r m)"
  by (simp add: same_watchers_def state_Close_def)

lemma ensure_new_same: "same_watchers m (snd (ensure_new env ns token m))"
  by (simp add: same_watchers_def ensure_new_def newState_def state_Watch_def Let_def)

lemma ensure_same: "same_watchers m (snd (ensureProxyServiceLocked env ns token m))"
  by (auto simp: ensureProxyServiceLocked_def same_watchers_refl
      intro: same_watchers_trans [OF state_Close_same ensure_new_same] ensure_new_same
      split: option.splits)

lemma remove_same: "same_watchers m (removeProxyServiceLocked p m)"
  by (simp add: same_watchers_def removeProxyServiceLocked_def state_Close_def Let_def
      split: option.splits)

lemma ensure_step_same: "same_watchers m (ensure_step env st k m)"
proof -
  obtain e m' where r: "ensureProxyServiceLocked env (the (Services st k)) (ServiceToken st k) m = (e, m')"
    by (cases "ensureProxyServiceLocked env (the (Services st k)) (ServiceToken st k) m")
  with ensure_same [of m env "the (Services st k)" "ServiceToken st k"]
  have "same_watchers m m'" by simp
  with r show ?thesis
    by (auto simp: ensure_step_def same_watchers_def split: option.splits)
qed

lemma remove_step_same: "same_watchers m (remove_step st p m)"
  by (simp add: remove_step_def remove_same same_watchers_refl)

lemma fold_same:
  assumes "\<And>x m. same_watchers m (f x m)"
  shows "same_watchers m (fold f xs m)"
proof (induction xs arbitrary: m)
  case Nil
  show ?case by (simp add: same_watchers_refl)
next
  case (Cons x xs)
  show ?case using same_watchers_trans [OF assms [of m x] Cons.IH [of "f x m"]] by simp
qed

lemma pass_same: "same_watchers m (pass env st so po m)"
  unfolding pass_def ensure_all_def remove_all_def
  by (rule same_watchers_trans [OF fold_same fold_same]) (rule ensure_step_same remove_step_same)+

subsection \<open>Registration and cancellation, field by field\<close>

lemma card_dom_0: "(card (dom (ws :: 64 word \<rightharpoonup> nat)) = 0) = (ws = Map.empty)"
  by simp

lemma closeWatchLocked_absent:
  "watchers_of m p i = None \<Longrightarrow> closeWatchLocked p i m = Inr m"
  by (simp add: closeWatchLocked_def watchers_of_def split: option.splits)

lemma closeWatchLocked_present:
  assumes "watchers m p = Some ws" and "ws i = Some ch" and "\<not> ch_closed (chanStore m ch)"
  shows "closeWatchLocked p i m =
     Inr (m\<lparr>watchers := (if ws(i := None) = Map.empty then (watchers m)(p := None)
                          else (watchers m)(p \<mapsto> ws(i := None))),
            chanStore := (chanStore m)(ch := (chanStore m ch)\<lparr>ch_closed := True\<rparr>),
            trace := trace m @ [EvChanClose ch]\<rparr>)"
  using assms by (simp add: closeWatchLocked_def chan_close_def Let_def)

lemma closeWatchLocked_closed:
  assumes "watchers m p = Some ws" and "ws i = Some ch" and "ch_closed (chanStore m ch)"
  shows "closeWatchLocked p i m = Inl PanicCloseOfClosedChannel"
  using assms by (simp add: closeWatchLocked_def chan_close_def Let_def)

lemma Watch_result:
  "\<exists>m'. Watch p m = Inr ((nextChan m, (p, next_idx m p)), m') \<and>
     watchers m' = (watchers m)(p \<mapsto> (watchers_of m p)(next_idx m p \<mapsto> nextChan m)) \<and>
     chanStore m' = (chanStore m)(nextChan m := \<lparr>buf = snapshot_of m p, cap = 1, ch_closed = False\<rparr>) \<and>
     nextChan m' = Suc (nextChan m) \<and> proxies m' = proxies m \<and> stateStore m' = stateStore m \<and>
     nextState m' = nextState m \<and> stateCh m' = stateCh m \<and> sigStore m' = sigStore m \<and> cfg m' = cfg m"
  by (simp add: Watch_def chan_send_def Let_def watchers_of_def next_idx_def snapshot_of_def
      split: option.splits)

subsection \<open>The watcher registry stays well formed\<close>

lemma wf_init: "wf_watchers (init_Manager c)"
  by (simp add: wf_watchers_def init_Manager_def)

lemma wf_same: "same_watchers m m' \<Longrightarrow> wf_watchers m \<Longrightarrow> wf_watchers m'"
  by (simp add: same_watchers_def wf_watchers_def)

lemma wf_Watch:
  assumes wf: "wf_watchers m" and w: "Watch p m = Inr (res, m')"
  shows "wf_watchers m'"
proof -
  from Watch_result [of p m] w
  have ws: "watchers m' = (watchers m)(p \<mapsto> (watchers_of m p)(next_idx m p \<mapsto> nextChan m))"
    and cs: "chanStore m' = (chanStore m)(nextChan m := \<lparr>buf = snapshot_of m p, cap = 1, ch_closed = False\<rparr>)"
    and nc: "nextChan m' = Suc (nextChan m)"
    by auto
  from wf have old: "\<And>q ws i c. watchers m q = Some ws \<Longrightarrow> ws i = Some c \<Longrightarrow>
      c < nextChan m \<and> \<not> ch_closed (chanStore m c)"
    and inj: "\<And>q ws i q' ws' i' c. watchers m q = Some ws \<Longrightarrow> ws i = Some c \<Longrightarrow>
      watchers m q' = Some ws' \<Longrightarrow> ws' i' = Some c \<Longrightarrow> q = q' \<and> i = i'"
    and ne: "\<And>q ws. watchers m q = Some ws \<Longrightarrow> ws \<noteq> Map.empty"
    unfolding wf_watchers_def by blast+
  have of_p: "\<And>i c. watchers_of m p i = Some c \<Longrightarrow> \<exists>ws. watchers m p = Some ws \<and> ws i = Some c"
    by (auto simp: watchers_of_def split: option.splits)
  have entry: "\<And>q ws i c. watchers m' q = Some ws \<Longrightarrow> ws i = Some c \<Longrightarrow>
      (c = nextChan m \<and> q = p \<and> i = next_idx m p) \<or>
      (c < nextChan m \<and> (\<exists>ws0. watchers m q = Some ws0 \<and> ws0 i = Some c) \<and>
         (q = p \<longrightarrow> i \<noteq> next_idx m p))"
    using old of_p by (fastforce simp: ws split: if_splits)
  show ?thesis
    unfolding wf_watchers_def
  proof (intro conjI allI impI)
    fix q ws assume "watchers m' q = Some ws"
    then show "ws \<noteq> Map.empty" using ne by (auto simp: ws split: if_splits)
  next
    fix q ws i c assume "watchers m' q = Some ws" "ws i = Some c"
    from entry [OF this] show "c < nextChan m'" using nc by auto
  next
    fix q ws i c assume a: "watchers m' q = Some ws" "ws i = Some c"
    from entry [OF a] old show "\<not> ch_closed (chanStore m' c)"
      by (auto simp: cs)
  next
    fix q ws i q' ws' i' c
    assume a: "watchers m' q = Some ws" "ws i = Some c" and b: "watchers m' q' = Some ws'" "ws' i' = Some c"
    from entry [OF a] entry [OF b] inj show "q = q'" by (metis less_irrefl)
  next
    fix q ws i q' ws' i' c
    assume a: "watchers m' q = Some ws" "ws i = Some c" and b: "watchers m' q' = Some ws'" "ws' i' = Some c"
    from entry [OF a] entry [OF b] inj show "i = i'" by (metis less_irrefl)
  qed
qed

lemma wf_closeWatchLocked:
  assumes wf: "wf_watchers m"
  shows "\<exists>m'. closeWatchLocked p i m = Inr m' \<and> wf_watchers m'"
proof (cases "watchers_of m p i")
  case None
  then show ?thesis using wf by (simp add: closeWatchLocked_absent)
next
  case (Some ch)
  then obtain ws where ws: "watchers m p = Some ws" "ws i = Some ch"
    by (auto simp: watchers_of_def split: option.splits)
  from wf have old: "\<And>q ws i c. watchers m q = Some ws \<Longrightarrow> ws i = Some c \<Longrightarrow>
      c < nextChan m \<and> \<not> ch_closed (chanStore m c)"
    and inj: "\<And>q ws i q' ws' i' c. watchers m q = Some ws \<Longrightarrow> ws i = Some c \<Longrightarrow>
      watchers m q' = Some ws' \<Longrightarrow> ws' i' = Some c \<Longrightarrow> q = q' \<and> i = i'"
    and ne: "\<And>q ws. watchers m q = Some ws \<Longrightarrow> ws \<noteq> Map.empty"
    unfolding wf_watchers_def by blast+
  from old [OF ws] have op: "\<not> ch_closed (chanStore m ch)" by simp
  let ?m' = "m\<lparr>watchers := (if ws(i := None) = Map.empty then (watchers m)(p := None)
                          else (watchers m)(p \<mapsto> ws(i := None))),
            chanStore := (chanStore m)(ch := (chanStore m ch)\<lparr>ch_closed := True\<rparr>),
            trace := trace m @ [EvChanClose ch]\<rparr>"
  have r: "closeWatchLocked p i m = Inr ?m'" by (rule closeWatchLocked_present [OF ws op])
  have entry: "\<And>q ws1 j c. watchers ?m' q = Some ws1 \<Longrightarrow> ws1 j = Some c \<Longrightarrow>
      (\<exists>ws0. watchers m q = Some ws0 \<and> ws0 j = Some c) \<and> (q = p \<longrightarrow> j \<noteq> i)"
    using ws by (auto split: if_splits)
  have neq: "\<And>q ws1 j c. watchers ?m' q = Some ws1 \<Longrightarrow> ws1 j = Some c \<Longrightarrow> c \<noteq> ch"
    using entry inj ws by blast
  have "wf_watchers ?m'"
    unfolding wf_watchers_def
  proof (intro conjI allI impI)
    fix q ws1 assume "watchers ?m' q = Some ws1"
    then show "ws1 \<noteq> Map.empty" using ne by (auto split: if_splits)
  next
    fix q ws1 j c assume a: "watchers ?m' q = Some ws1" "ws1 j = Some c"
    from entry [OF a] old show "c < nextChan ?m'" by auto
  next
    fix q ws1 j c assume a: "watchers ?m' q = Some ws1" "ws1 j = Some c"
    from entry [OF a] old neq [OF a] show "\<not> ch_closed (chanStore ?m' c)" by auto
  next
    fix q ws1 j q' ws' j' c
    assume a: "watchers ?m' q = Some ws1" "ws1 j = Some c" and b: "watchers ?m' q' = Some ws'" "ws' j' = Some c"
    from entry [OF a] entry [OF b] inj show "q = q'" by blast
  next
    fix q ws1 j q' ws' j' c
    assume a: "watchers ?m' q = Some ws1" "ws1 j = Some c" and b: "watchers ?m' q' = Some ws'" "ws' j' = Some c"
    from entry [OF a] entry [OF b] inj show "j = j'" by blast
  qed
  with r show ?thesis by blast
qed

lemma range_loop_inv:
  assumes step: "\<And>x s s'. P s \<Longrightarrow> f x s = Inr s' \<Longrightarrow> P s'"
    and "P s" and "range_loop f xs s = Inr s'"
  shows "P s'"
  using assms(2,3)
proof (induction xs arbitrary: s)
  case Nil
  then show ?case by simp
next
  case (Cons x xs)
  from Cons.prems(2) obtain s1 where s1: "f x s = Inr s1" "range_loop f xs s1 = Inr s'"
    by (auto split: sum.splits)
  from step [OF Cons.prems(1) s1(1)] s1(2) show ?case by (rule Cons.IH)
qed

lemma wf_cong:
  "watchers m' = watchers m \<Longrightarrow> chanStore m' = chanStore m \<Longrightarrow> nextChan m' = nextChan m \<Longrightarrow>
   wf_watchers m \<Longrightarrow> wf_watchers m'"
  by (simp add: wf_watchers_def)

lemma wf_chan_try_send:
  assumes "wf_watchers m" and "chan_try_send c snap m = Inr m'"
  shows "wf_watchers m'"
proof -
  from assms(2) have "watchers m' = watchers m" "nextChan m' = nextChan m"
    "\<And>d. ch_closed (chanStore m' d) = ch_closed (chanStore m d)"
    by (auto simp: chan_try_send_def split: if_splits)
  with assms(1) show ?thesis by (simp add: wf_watchers_def)
qed

lemma wf_notify:
  assumes "wf_watchers m" and "notify snap order m = Inr m'"
  shows "wf_watchers m'"
proof (cases "watchers m (ProxyID snap)")
  case None
  with assms show ?thesis by (simp add: notify_def)
next
  case (Some ws)
  with assms(2) have l: "range_loop (\<lambda>k m'. case ws k of None \<Rightarrow> Inr m' | Some ch \<Rightarrow> chan_try_send ch snap m')
            order m = Inr m'"
    by (simp add: notify_def)
  show ?thesis
  proof (rule range_loop_inv [where P = wf_watchers, OF _ assms(1) l])
    fix x s s'
    assume "wf_watchers s" "(case ws x of None \<Rightarrow> Inr s | Some ch \<Rightarrow> chan_try_send ch snap s) = Inr s'"
    then show "wf_watchers s'"
      by (cases "ws x") (auto intro: wf_chan_try_send)
  qed
qed

lemma wf_close_watchers_step:
  assumes "wf_watchers m" and "close_watchers_step pw m = Inr m'"
  shows "wf_watchers m'"
proof (rule range_loop_inv [where P = wf_watchers, OF _ assms(1) assms(2) [unfolded close_watchers_step_def]])
  fix x s s'
  assume "wf_watchers s" "closeWatchLocked (fst pw) x s = Inr s'"
  with wf_closeWatchLocked [of s "fst pw" x] show "wf_watchers s'" by auto
qed

lemma close_state_step_same: "same_watchers m (close_state_step p m)"
  by (simp add: same_watchers_def close_state_step_def state_Close_def Let_def split: option.splits)

lemma wf_close_stateCh:
  assumes "wf_watchers m" and "close_stateCh m = Inr m'"
  shows "wf_watchers m'"
proof -
  from assms(2) have "watchers m' = watchers m" "chanStore m' = chanStore m" "nextChan m' = nextChan m"
    by (auto simp: close_stateCh_def split: option.splits if_splits)
  then show ?thesis using assms(1) by (rule wf_cong)
qed

lemma wf_Close:
  assumes "wf_watchers m" and "Close wo po m = Inr m'"
  shows "wf_watchers m'"
proof -
  from assms(2) obtain m1 m2 where s: "close_stateCh m = Inr m1"
    "range_loop close_watchers_step wo m1 = Inr m2" "m' = fold close_state_step po m2"
    by (auto simp: Close_def split: sum.splits)
  have "wf_watchers m1" by (rule wf_close_stateCh [OF assms(1) s(1)])
  then have "wf_watchers m2"
    using s(2) by (rule range_loop_inv [where P = wf_watchers and f = close_watchers_step, rotated])
      (rule wf_close_watchers_step)
  moreover have "same_watchers m2 m'" unfolding s(3) by (rule fold_same) (rule close_state_step_same)
  ultimately show ?thesis by (rule wf_same [rotated])
qed

lemma wf_exec:
  assumes "wf_watchers m" and "exec op m = Inr m'"
  shows "wf_watchers m'"
proof (cases op)
  case (OpWatch p)
  with assms show ?thesis by (auto split: sum.splits intro: wf_Watch)
next
  case (OpCancel c)
  with assms wf_closeWatchLocked [of m "fst c" "snd c"] show ?thesis by (auto simp: cancel_def)
next
  case (OpNotify snap order)
  with assms show ?thesis by (auto intro: wf_notify)
next
  case (OpPass env st so po)
  with assms wf_same [OF pass_same] show ?thesis by auto
next
  case (OpClose wo po)
  with assms show ?thesis by (auto intro: wf_Close)
next
  case (OpSnapshot r snap)
  with assms(2) have "watchers m' = watchers m" "chanStore m' = chanStore m" "nextChan m' = nextChan m"
    by auto
  then show ?thesis using assms(1) by (rule wf_cong)
qed

lemma wf_reachable:
  assumes "NewManager c = Inr m0" and "exec_all ops m0 = Inr m"
  shows "wf_watchers m"
proof -
  from assms(1) have "m0 = init_Manager c" by (auto simp: NewManager_def split: if_splits)
  then have "wf_watchers m0" by (simp add: wf_init)
  then show ?thesis
    using assms(2) [unfolded exec_all_def]
    by (rule range_loop_inv [where P = wf_watchers and f = exec, rotated]) (rule wf_exec)
qed

subsection \<open>Cancelling a watch\<close>

lemma NewManager_ex: "NewManager ex_cfg = Inr (init_Manager ex_cfg)"
  by (simp add: NewManager_def ex_cfg_def)

lemma wf_nonempty: "wf_watchers m \<Longrightarrow> watchers m q = Some ws \<Longrightarrow> ws \<noteq> Map.empty"
  unfolding wf_watchers_def by blast

lemma wf_open: "wf_watchers m \<Longrightarrow> watchers m q = Some ws \<Longrightarrow> ws i = Some c \<Longrightarrow> \<not> ch_closed (chanStore m c)"
  unfolding wf_watchers_def by blast

lemma closeWatchLocked_fields:
  assumes wf: "wf_watchers m" and ws: "watchers m p = Some ws" "ws i = Some ch"
  shows "\<exists>m'. closeWatchLocked p i m = Inr m' \<and>
           watchers_of m' p = ws(i := None) \<and>
           (watchers m' p = None \<longleftrightarrow> ws(i := None) = Map.empty) \<and>
           (\<forall>q. q \<noteq> p \<longrightarrow> watchers m' q = watchers m q) \<and>
           ch_closed (chanStore m' ch) \<and>
           (\<forall>d. d \<noteq> ch \<longrightarrow> chanStore m' d = chanStore m d) \<and>
           (\<forall>q ws'. watchers m' q = Some ws' \<longrightarrow> ws' \<noteq> Map.empty)"
proof -
  have op: "\<not> ch_closed (chanStore m ch)" by (rule wf_open [OF wf ws])
  from wf_closeWatchLocked [OF wf, of p i] obtain m' where
    m': "closeWatchLocked p i m = Inr m'" and wf': "wf_watchers m'" by blast
  have ne: "\<forall>q ws'. watchers m' q = Some ws' \<longrightarrow> ws' \<noteq> Map.empty"
    using wf_nonempty [OF wf'] by blast
  have f1: "watchers_of m' p = ws(i := None)"
    using m' unfolding closeWatchLocked_present [OF ws op]
    by (cases "ws(i := None) = Map.empty") (auto simp: watchers_of_def)
  have f2: "(watchers m' p = None) = (ws(i := None) = Map.empty)"
    using m' unfolding closeWatchLocked_present [OF ws op]
    by (cases "ws(i := None) = Map.empty") auto
  have f3: "\<forall>q. q \<noteq> p \<longrightarrow> watchers m' q = watchers m q"
    using m' unfolding closeWatchLocked_present [OF ws op]
    by (cases "ws(i := None) = Map.empty") auto
  have f4: "ch_closed (chanStore m' ch)"
    using m' unfolding closeWatchLocked_present [OF ws op] by auto
  have f5: "\<forall>d. d \<noteq> ch \<longrightarrow> chanStore m' d = chanStore m d"
    using m' unfolding closeWatchLocked_present [OF ws op] by auto
  show ?thesis
    by (rule exI [of _ m']) (intro conjI m' f1 f2 f3 f4 f5 ne)
qed

text \<open>
  C7. In every manager reached from \<^verbatim>\<open>NewManager\<close> by the operations of the manager, for
  every registered watcher entry \<open>(p, idx)\<close> the cancellation \<^verbatim>\<open>closeWatchLocked(p, idx)\<close>
  returns, removes that entry from the watcher set of \<open>p\<close> and closes its queue, leaving the
  other proxies and the other queues as they were; the entry of \<open>p\<close> leaves the outer map
  exactly when that empties the watcher set, so that neither before nor after the call the
  outer map holds an empty watcher set. Cancelling an entry that does not exist returns the
  manager unchanged.
\<close>

theorem closeWatchLocked_removes_entry:
  assumes "NewManager c = Inr m0" and "exec_all ops m0 = Inr m"
  shows "(\<forall>ws ch. watchers m p = Some ws \<and> ws idx = Some ch \<longrightarrow>
            (\<exists>m'. closeWatchLocked p idx m = Inr m' \<and>
               watchers_of m' p = ws(idx := None) \<and>
               (watchers m' p = None \<longleftrightarrow> ws(idx := None) = Map.empty) \<and>
               (\<forall>q. q \<noteq> p \<longrightarrow> watchers m' q = watchers m q) \<and>
               ch_closed (chanStore m' ch) \<and>
               (\<forall>d. d \<noteq> ch \<longrightarrow> chanStore m' d = chanStore m d) \<and>
               (\<forall>q ws'. watchers m' q = Some ws' \<longrightarrow> ws' \<noteq> Map.empty))) \<and>
         (watchers_of m p idx = None \<longrightarrow> closeWatchLocked p idx m = Inr m) \<and>
         (\<forall>q ws'. watchers m q = Some ws' \<longrightarrow> ws' \<noteq> Map.empty)"
proof (intro conjI allI impI)
  have wf: "wf_watchers m" by (rule wf_reachable [OF assms])
  show "ws' \<noteq> Map.empty" if "watchers m q = Some ws'" for q ws'
    using wf that by (rule wf_nonempty)
  show "closeWatchLocked p idx m = Inr m" if "watchers_of m p idx = None"
    using that by (rule closeWatchLocked_absent)
  show "\<exists>m'. closeWatchLocked p idx m = Inr m' \<and>
               watchers_of m' p = ws(idx := None) \<and>
               (watchers m' p = None \<longleftrightarrow> ws(idx := None) = Map.empty) \<and>
               (\<forall>q. q \<noteq> p \<longrightarrow> watchers m' q = watchers m q) \<and>
               ch_closed (chanStore m' ch) \<and>
               (\<forall>d. d \<noteq> ch \<longrightarrow> chanStore m' d = chanStore m d) \<and>
               (\<forall>q ws'. watchers m' q = Some ws' \<longrightarrow> ws' \<noteq> Map.empty)"
    if "watchers m p = Some ws \<and> ws idx = Some ch" for ws ch
    using that by (intro closeWatchLocked_fields [OF wf]) simp_all
qed

lemma after_watch_web:
  "exec_all [OpWatch ''web''] (init_Manager ex_cfg) = Inr (after [OpWatch ''web''] (init_Manager ex_cfg))"
  "watchers (after [OpWatch ''web''] (init_Manager ex_cfg)) = [''web'' \<mapsto> [0 \<mapsto> 0]]"
  "chanStore (after [OpWatch ''web''] (init_Manager ex_cfg)) 0 = \<lparr>buf = [], cap = 1, ch_closed = False\<rparr>"
  by (simp_all add: after_def exec_all_def Watch_def init_Manager_def Let_def)

theorem closeWatchLocked_removes_entry_witness:
  "NewManager ex_cfg = Inr (init_Manager ex_cfg) \<and>
   exec_all [OpWatch ''web''] (init_Manager ex_cfg) = Inr (after [OpWatch ''web''] (init_Manager ex_cfg)) \<and>
   watchers (after [OpWatch ''web''] (init_Manager ex_cfg)) ''web'' = Some [0 \<mapsto> 0] \<and>
   (\<exists>m'. closeWatchLocked ''web'' 0 (after [OpWatch ''web''] (init_Manager ex_cfg)) = Inr m' \<and>
         watchers m' ''web'' = None \<and> ch_closed (chanStore m' 0)) \<and>
   closeWatchLocked ''web'' 1 (after [OpWatch ''web''] (init_Manager ex_cfg)) =
     Inr (after [OpWatch ''web''] (init_Manager ex_cfg))"
  using closeWatchLocked_removes_entry [OF NewManager_ex after_watch_web(1), of "''web''" 0]
    closeWatchLocked_removes_entry [OF NewManager_ex after_watch_web(1), of "''web''" 1]
  by (simp add: NewManager_ex after_watch_web watchers_of_def) blast

subsection \<open>Run after Close\<close>

lemma closeWatchLocked_stateCh:
  "closeWatchLocked p i m = Inr m' \<Longrightarrow> stateCh m' = stateCh m"
  by (auto simp: closeWatchLocked_def chan_close_def Let_def split: option.splits if_splits)

lemma close_watchers_step_stateCh:
  assumes "close_watchers_step pw m = Inr m'"
  shows "stateCh m' = stateCh m"
proof -
  have "stateCh m = stateCh m" by simp
  then show ?thesis
    using assms [unfolded close_watchers_step_def]
    by (rule range_loop_inv [where P = "\<lambda>s. stateCh s = stateCh m" and f = "closeWatchLocked (fst pw)", rotated])
      (simp add: closeWatchLocked_stateCh)
qed

lemma Close_stateCh:
  assumes "Close wo po m = Inr m'"
  shows "stateCh m' = None"
proof -
  from assms obtain m1 m2 where s: "close_stateCh m = Inr m1"
    "range_loop close_watchers_step wo m1 = Inr m2" "m' = fold close_state_step po m2"
    by (auto simp: Close_def split: sum.splits)
  from s(1) have "stateCh m1 = None"
    by (auto simp: close_stateCh_def split: option.splits if_splits)
  then have "stateCh m2 = None"
    using s(2)
    by (rule range_loop_inv [where P = "\<lambda>s. stateCh s = None" and f = close_watchers_step, rotated])
      (simp add: close_watchers_step_stateCh)
  moreover have "same_watchers m2 m'" unfolding s(3) by (rule fold_same) (rule close_state_step_same)
  ultimately show ?thesis by (simp add: same_watchers_def)
qed

lemma notify_stateCh:
  assumes "notify snap order m = Inr m'"
  shows "stateCh m' = stateCh m"
proof (cases "watchers m (ProxyID snap)")
  case None
  with assms show ?thesis by (simp add: notify_def)
next
  case (Some ws)
  with assms have l: "range_loop (\<lambda>k m'. case ws k of None \<Rightarrow> Inr m' | Some ch \<Rightarrow> chan_try_send ch snap m')
            order m = Inr m'"
    by (simp add: notify_def)
  have "stateCh m = stateCh m" by simp
  then show ?thesis using l
    by (rule range_loop_inv [where P = "\<lambda>s. stateCh s = stateCh m", rotated])
      (auto simp: chan_try_send_def split: option.splits if_splits)
qed

lemma exec_stateCh:
  assumes "exec op m = Inr m'"
  shows "stateCh m' = (if is_close op then None else stateCh m)"
proof (cases op)
  case (OpWatch p)
  with assms Watch_result [of p m] show ?thesis by (auto split: sum.splits)
next
  case (OpCancel c)
  with assms show ?thesis by (simp add: cancel_def closeWatchLocked_stateCh)
next
  case (OpNotify snap order)
  with assms show ?thesis by (simp add: notify_stateCh)
next
  case (OpPass env st so po)
  with assms pass_same [of m env st so po] show ?thesis by (auto simp: same_watchers_def)
next
  case (OpClose wo po)
  with assms show ?thesis by (simp add: Close_stateCh)
next
  case (OpSnapshot r snap)
  with assms show ?thesis by auto
qed

lemma exec_all_stateCh:
  "exec_all ops m = Inr m' \<Longrightarrow>
   stateCh m' = (if \<exists>op\<in>set ops. is_close op then None else stateCh m)"
  unfolding exec_all_def
proof (induction ops arbitrary: m)
  case Nil
  then show ?case by simp
next
  case (Cons op ops)
  from Cons.prems obtain m1 where s: "exec op m = Inr m1" "range_loop exec ops m1 = Inr m'"
    by (auto split: sum.splits)
  from Cons.IH [OF s(2)] exec_stateCh [OF s(1)] show ?case by auto
qed

lemma run_loop_not_stopped: "fst (run_loop sc rounds m) \<noteq> Returned (Some ErrStopped)"
  by (induction rounds arbitrary: m) (auto simp: Let_def split: wake.splits)

text \<open>
  C8. Take a manager made by \<^verbatim>\<open>NewManager\<close> and any history of operations on it. If \<^verbatim>\<open>Close\<close>
  is among them, \<^verbatim>\<open>Run\<close> returns \<^verbatim>\<open>ErrStopped\<close> and the manager is exactly as before the call:
  nothing is registered with the local state and no pass runs. If \<^verbatim>\<open>Close\<close> is not among
  them, \<^verbatim>\<open>Run\<close> does not return \<^verbatim>\<open>ErrStopped\<close>, however its waits end.
\<close>

theorem Run_stopped_iff_closed:
  assumes "NewManager c = Inr m0" and "exec_all ops m0 = Inr m"
  shows "((\<exists>op\<in>set ops. is_close op) \<longrightarrow> Run rounds m = (Returned (Some ErrStopped), m)) \<and>
         ((\<forall>op\<in>set ops. \<not> is_close op) \<longrightarrow> fst (Run rounds m) \<noteq> Returned (Some ErrStopped))"
proof -
  from assms(1) have "stateCh m0 = Some 0"
    by (auto simp: NewManager_def init_Manager_def split: if_splits)
  with exec_all_stateCh [OF assms(2)]
  have "stateCh m = (if \<exists>op\<in>set ops. is_close op then None else Some 0)" by simp
  then show ?thesis by (auto simp: Run_def run_loop_not_stopped)
qed

lemma Close_fresh:
  "exec_all [OpClose [] []] (init_Manager ex_cfg) = Inr (after [OpClose [] []] (init_Manager ex_cfg))"
  by (simp add: after_def exec_all_def Close_def close_stateCh_def init_Manager_def)

lemma exec_all_Nil: "exec_all [] m = Inr m"
  by (simp add: exec_all_def)

theorem Run_stopped_iff_closed_witness:
  "NewManager ex_cfg = Inr (init_Manager ex_cfg) \<and>
   exec_all [OpClose [] []] (init_Manager ex_cfg) = Inr (after [OpClose [] []] (init_Manager ex_cfg)) \<and>
   Run [] (after [OpClose [] []] (init_Manager ex_cfg)) =
     (Returned (Some ErrStopped), after [OpClose [] []] (init_Manager ex_cfg)) \<and>
   exec_all [] (init_Manager ex_cfg) = Inr (init_Manager ex_cfg) \<and>
   fst (Run [] (init_Manager ex_cfg)) \<noteq> Returned (Some ErrStopped)"
  using Run_stopped_iff_closed [OF NewManager_ex Close_fresh, of "[]"]
    Run_stopped_iff_closed [OF NewManager_ex exec_all_Nil, of "[]"]
  by (simp add: NewManager_ex Close_fresh exec_all_Nil)

subsection \<open>Close empties both maps\<close>

lemma range_loop_id:
  "(\<And>x. x \<in> set xs \<Longrightarrow> f x s = Inr s) \<Longrightarrow> range_loop f xs s = Inr s"
  by (induction xs) auto

lemma fold_id: "(\<And>x. x \<in> set xs \<Longrightarrow> f x s = s) \<Longrightarrow> fold f xs s = s"
  by (induction xs) auto

lemma closeWatchLocked_fieldsE:
  assumes "wf_watchers m" and "watchers m p = Some ws" and "ws i = Some ch"
  obtains m' where "closeWatchLocked p i m = Inr m'"
    and "watchers_of m' p = ws(i := None)"
    and "(watchers m' p = None) = (ws(i := None) = Map.empty)"
    and "\<forall>q. q \<noteq> p \<longrightarrow> watchers m' q = watchers m q"
    and "wf_watchers m'"
proof -
  from closeWatchLocked_fields [OF assms] obtain m' where
    all: "closeWatchLocked p i m = Inr m' \<and>
           watchers_of m' p = ws(i := None) \<and>
           (watchers m' p = None \<longleftrightarrow> ws(i := None) = Map.empty) \<and>
           (\<forall>q. q \<noteq> p \<longrightarrow> watchers m' q = watchers m q) \<and>
           ch_closed (chanStore m' ch) \<and>
           (\<forall>d. d \<noteq> ch \<longrightarrow> chanStore m' d = chanStore m d) \<and>
           (\<forall>q ws'. watchers m' q = Some ws' \<longrightarrow> ws' \<noteq> Map.empty)" ..
  from all have r: "closeWatchLocked p i m = Inr m'" by (rule conjunct1)
  with wf_closeWatchLocked [OF assms(1), of p i] have wf': "wf_watchers m'" by simp
  from all wf' show ?thesis by (elim conjE) (rule that; assumption)
qed

lemma close_inner:
  assumes "wf_watchers m" and "watchers m p = Some ws" and "range_of ws ks"
    and "range_loop (closeWatchLocked p) ks m = Inr m'"
  shows "watchers m' = (watchers m)(p := None)"
  using assms
proof (induction ks arbitrary: m ws)
  case Nil
  from Nil.prems(3) have "dom ws = {}" unfolding range_of_def by (metis empty_set)
  with wf_nonempty [OF Nil.prems(1,2)] dom_eq_empty_conv [of ws] show ?case by blast
next
  case (Cons k ks)
  from Cons.prems(3) have eq: "insert k (set ks) = dom ws" and dk: "k \<notin> set ks"
    and dks: "distinct ks"
    by (simp_all add: range_of_def)
  from eq have k: "k \<in> dom ws" by blast
  from eq dk have "set ks = dom ws - {k}" by blast
  with dks have ks: "distinct ks" "set ks = dom ws - {k}" by simp_all
  from k obtain ch where ch: "ws k = Some ch" by auto
  obtain m1 where
    m1: "closeWatchLocked p k m = Inr m1" and
    w1: "watchers_of m1 p = ws(k := None)" and
    w2: "(watchers m1 p = None) = (ws(k := None) = Map.empty)" and
    w3: "\<forall>q. q \<noteq> p \<longrightarrow> watchers m1 q = watchers m q" and
    wf1: "wf_watchers m1"
    by (rule closeWatchLocked_fieldsE [OF Cons.prems(1,2) ch])
  from Cons.prems(4) m1 have rest: "range_loop (closeWatchLocked p) ks m1 = Inr m'" by simp
  show ?case
  proof (cases "ws(k := None) = Map.empty")
    case True
    have "dom (ws(k := None)) = {}" by (simp only: True dom_empty)
    then have "dom ws - {k} = {}" by simp
    with ks(2) have "set ks = {}" by (simp only:)
    then have "ks = []" by simp
    with rest have "m' = m1" by simp
    moreover from True w2 have "watchers m1 p = None" by simp
    ultimately show ?thesis using w3 by (intro ext) auto
  next
    case False
    with w2 w1 have p1: "watchers m1 p = Some (ws(k := None))"
      by (auto simp: watchers_of_def split: option.splits)
    have r1: "range_of (ws(k := None)) ks" using ks by (auto simp: range_of_def)
    from Cons.IH [OF wf1 p1 r1 rest] have "watchers m' = (watchers m1)(p := None)" .
    then show ?thesis using w3 by (intro ext) auto
  qed
qed

lemma close_outer:
  assumes "wf_watchers m" and "distinct (map fst wo)"
    and "\<And>pw. pw \<in> set wo \<Longrightarrow> \<exists>ws. watchers m (fst pw) = Some ws \<and> range_of ws (snd pw)"
    and "range_loop close_watchers_step wo m = Inr m'"
  shows "watchers m' = (\<lambda>q. if q \<in> fst ` set wo then None else watchers m q)"
  using assms
proof (induction wo arbitrary: m)
  case Nil
  then show ?case by simp
next
  case (Cons pw wo)
  from Cons.prems(4) obtain m1 where m1: "close_watchers_step pw m = Inr m1"
    and rest: "range_loop close_watchers_step wo m1 = Inr m'"
    by (auto split: sum.splits)
  from Cons.prems(3) [of pw] obtain ws where ws: "watchers m (fst pw) = Some ws" "range_of ws (snd pw)"
    by auto
  have w1: "watchers m1 = (watchers m)(fst pw := None)"
    by (rule close_inner [OF Cons.prems(1) ws m1 [unfolded close_watchers_step_def]])
  have wf1: "wf_watchers m1" by (rule wf_close_watchers_step [OF Cons.prems(1) m1])
  have d: "distinct (map fst wo)" "fst pw \<notin> fst ` set wo" using Cons.prems(2) by auto
  have r: "\<exists>ws. watchers m1 (fst pw') = Some ws \<and> range_of ws (snd pw')" if "pw' \<in> set wo" for pw'
  proof -
    from that have "fst pw' \<in> fst ` set wo" by (rule imageI)
    with d(2) have "fst pw' \<noteq> fst pw" by metis
    with Cons.prems(3) [of pw'] that show ?thesis by (simp add: w1)
  qed
  from Cons.IH [OF wf1 d(1) r rest]
  have "watchers m' = (\<lambda>q. if q \<in> fst ` set wo then None else watchers m1 q)" by simp
  then show ?case by (intro ext) (simp add: w1)
qed

lemma close_state_step_dom: "dom (proxies (close_state_step p m)) = dom (proxies m) - {p}"
  by (auto simp: close_state_step_def state_Close_proxies Let_def split: option.splits)

lemma close_states_dom: "dom (proxies (fold close_state_step po m)) = dom (proxies m) - set po"
proof (induction po arbitrary: m)
  case Nil
  show ?case by simp
next
  case (Cons p po)
  show ?case by (simp add: Cons.IH close_state_step_dom) blast
qed

lemma closeWatchLocked_proxies:
  "closeWatchLocked p i m = Inr m' \<Longrightarrow> proxies m' = proxies m"
  by (auto simp: closeWatchLocked_def chan_close_def Let_def split: option.splits if_splits)

lemma close_watchers_step_proxies:
  assumes "close_watchers_step pw m = Inr m'"
  shows "proxies m' = proxies m"
proof -
  have "proxies m = proxies m" by simp
  then show ?thesis
    using assms [unfolded close_watchers_step_def]
    by (rule range_loop_inv [where P = "\<lambda>s. proxies s = proxies m" and f = "closeWatchLocked (fst pw)", rotated])
      (simp add: closeWatchLocked_proxies)
qed

lemma Close_empties:
  assumes wf: "wf_watchers m" and wo: "worder_of m wo" and po: "range_of (proxies m) po"
    and cl: "Close wo po m = Inr m'"
  shows "watchers m' = Map.empty" and "proxies m' = Map.empty"
proof -
  from cl obtain m1 m2 where s: "close_stateCh m = Inr m1"
    "range_loop close_watchers_step wo m1 = Inr m2" "m' = fold close_state_step po m2"
    by (auto simp: Close_def split: sum.splits)
  from s(1) have e1: "watchers m1 = watchers m" "proxies m1 = proxies m"
    by (auto simp: close_stateCh_def split: option.splits if_splits)
  have wf1: "wf_watchers m1" by (rule wf_close_stateCh [OF wf s(1)])
  from wo have d: "distinct (map fst wo)" "fst ` set wo = dom (watchers m)"
    by (auto simp: worder_of_def range_of_def)
  have r: "\<exists>ws. watchers m1 (fst pw) = Some ws \<and> range_of ws (snd pw)" if "pw \<in> set wo" for pw
    using wo that by (auto simp: worder_of_def e1 split: option.splits)
  from close_outer [OF wf1 d(1) r s(2)] d(2)
  have w2: "watchers m2 = Map.empty" by (intro ext) (auto simp: e1)
  have "same_watchers m2 m'" unfolding s(3) by (rule fold_same) (rule close_state_step_same)
  with w2 show "watchers m' = Map.empty" by (simp add: same_watchers_def)
  have "proxies m1 = proxies m1" by simp
  then have "proxies m2 = proxies m1"
    using s(2)
    by (rule range_loop_inv [where P = "\<lambda>s. proxies s = proxies m1" and f = close_watchers_step, rotated])
      (simp add: close_watchers_step_proxies)
  with e1 po have "dom (proxies m') = {}"
    unfolding s(3) close_states_dom by (simp add: range_of_def)
  then show "proxies m' = Map.empty" by simp
qed

lemma Close_again:
  assumes "stateCh m = None" and "watchers m = Map.empty" and "proxies m = Map.empty"
  shows "Close wo po m = Inr m"
proof -
  have a: "close_stateCh m = Inr m" using assms(1) by (simp add: close_stateCh_def)
  have b: "range_loop close_watchers_step wo m = Inr m"
    by (rule range_loop_id) (simp add: close_watchers_step_def range_loop_id
        closeWatchLocked_absent watchers_of_def assms(2))
  have c: "fold close_state_step po m = m"
    by (rule fold_id) (simp add: close_state_step_def assms(3))
  show ?thesis by (simp add: Close_def a b c)
qed

subsection \<open>Close returns\<close>

lemma sig_open_cong: "stateCh m' = stateCh m \<Longrightarrow> sigStore m' = sigStore m \<Longrightarrow> sig_open m \<Longrightarrow> sig_open m'"
  by (simp add: sig_open_def split: option.splits)

lemma sig_open_nil: "stateCh m = None \<Longrightarrow> sig_open m"
  by (simp add: sig_open_def)

lemma closeWatchLocked_sigStore:
  "closeWatchLocked p i m = Inr m' \<Longrightarrow> sigStore m' = sigStore m"
  by (auto simp: closeWatchLocked_def chan_close_def Let_def split: option.splits if_splits)

lemma notify_sigStore:
  assumes "notify snap order m = Inr m'"
  shows "sigStore m' = sigStore m"
proof (cases "watchers m (ProxyID snap)")
  case None
  with assms show ?thesis by (simp add: notify_def)
next
  case (Some ws)
  with assms have l: "range_loop (\<lambda>k m'. case ws k of None \<Rightarrow> Inr m' | Some ch \<Rightarrow> chan_try_send ch snap m')
            order m = Inr m'"
    by (simp add: notify_def)
  have "sigStore m = sigStore m" by simp
  then show ?thesis using l
    by (rule range_loop_inv [where P = "\<lambda>s. sigStore s = sigStore m", rotated])
      (auto simp: chan_try_send_def split: option.splits if_splits)
qed

lemma sig_open_exec:
  assumes "sig_open m" and "exec op m = Inr m'"
  shows "sig_open m'"
proof (cases op)
  case (OpWatch p)
  with assms(2) Watch_result [of p m] have "stateCh m' = stateCh m" "sigStore m' = sigStore m"
    by (auto split: sum.splits)
  then show ?thesis using assms(1) by (rule sig_open_cong)
next
  case (OpCancel cf)
  with assms(2) have "stateCh m' = stateCh m" "sigStore m' = sigStore m"
    by (simp_all add: cancel_def closeWatchLocked_stateCh closeWatchLocked_sigStore)
  then show ?thesis using assms(1) by (rule sig_open_cong)
next
  case (OpNotify snap order)
  with assms(2) have "stateCh m' = stateCh m" "sigStore m' = sigStore m"
    by (simp_all add: notify_stateCh notify_sigStore)
  then show ?thesis using assms(1) by (rule sig_open_cong)
next
  case (OpPass env st so po)
  with assms(2) pass_same [of m env st so po] have "stateCh m' = stateCh m" "sigStore m' = sigStore m"
    by (auto simp: same_watchers_def)
  then show ?thesis using assms(1) by (rule sig_open_cong)
next
  case (OpClose wo po)
  with assms(2) have "stateCh m' = None" by (simp add: Close_stateCh)
  then show ?thesis by (rule sig_open_nil)
next
  case (OpSnapshot x snap)
  with assms(2) have "stateCh m' = stateCh m" "sigStore m' = sigStore m" by auto
  then show ?thesis using assms(1) by (rule sig_open_cong)
qed

lemma sig_open_reachable:
  assumes "NewManager c = Inr m0" and "exec_all ops m0 = Inr m"
  shows "sig_open m"
proof -
  from assms(1) have "m0 = init_Manager c" by (auto simp: NewManager_def split: if_splits)
  then have "sig_open m0" by (simp add: sig_open_def init_Manager_def)
  then show ?thesis
    using assms(2) [unfolded exec_all_def]
    by (rule range_loop_inv [where P = sig_open and f = exec, rotated]) (rule sig_open_exec)
qed

lemma range_loop_total:
  assumes step: "\<And>x s. P s \<Longrightarrow> \<exists>s'. f x s = Inr s' \<and> P s'" and "P s"
  shows "\<exists>s'. range_loop f xs s = Inr s' \<and> P s'"
  using assms(2)
proof (induction xs arbitrary: s)
  case Nil
  then show ?case by simp
next
  case (Cons x xs)
  from step [OF Cons.prems, of x] obtain s1 where s1: "f x s = Inr s1" "P s1" by auto
  from Cons.IH [OF s1(2)] s1(1) show ?case by simp
qed

lemma Close_returns:
  assumes wf: "wf_watchers m" and so: "sig_open m"
  shows "\<exists>m'. Close wo po m = Inr m'"
proof -
  from so obtain m1 where m1: "close_stateCh m = Inr m1"
    by (auto simp: close_stateCh_def sig_open_def split: option.splits)
  have wf1: "wf_watchers m1" by (rule wf_close_stateCh [OF wf m1])
  have inner: "\<exists>s'. close_watchers_step pw s = Inr s' \<and> wf_watchers s'" if "wf_watchers s" for pw s
    unfolding close_watchers_step_def
    using that by (rule range_loop_total [where P = wf_watchers, rotated]) (rule wf_closeWatchLocked)
  have "\<exists>m2. range_loop close_watchers_step wo m1 = Inr m2 \<and> wf_watchers m2"
    using wf1 by (rule range_loop_total [where P = wf_watchers, rotated]) (rule inner)
  then obtain m2 where "range_loop close_watchers_step wo m1 = Inr m2" by auto
  with m1 show ?thesis by (simp add: Close_def)
qed

text \<open>
  C10. Take a manager reached from \<^verbatim>\<open>NewManager\<close> by the operations of the manager. A call
  of \<^verbatim>\<open>Close\<close> on it that ranges over all watchers and all proxies returns nil; after it
  the change-signal channel is nil and both maps are empty; and a second \<^verbatim>\<open>Close\<close> returns
  nil and leaves the manager exactly as the first left it: it closes nothing and deletes
  nothing.
\<close>

theorem Close_idempotent:
  assumes "NewManager c = Inr m0" and "exec_all ops m0 = Inr m"
    and "worder_of m wo" and "range_of (proxies m) po"
  shows "\<exists>m'. Close wo po m = Inr m' \<and>
           stateCh m' = None \<and> watchers m' = Map.empty \<and> proxies m' = Map.empty \<and>
           Close wo' po' m' = Inr m'"
proof -
  have wf: "wf_watchers m" by (rule wf_reachable [OF assms(1,2)])
  have so: "sig_open m" by (rule sig_open_reachable [OF assms(1,2)])
  from Close_returns [OF wf so] obtain m' where cl: "Close wo po m = Inr m'" ..
  have a: "stateCh m' = None" by (rule Close_stateCh [OF cl])
  have b: "watchers m' = Map.empty" by (rule Close_empties(1) [OF wf assms(3,4) cl])
  have c: "proxies m' = Map.empty" by (rule Close_empties(2) [OF wf assms(3,4) cl])
  have d: "Close wo' po' m' = Inr m'" by (rule Close_again [OF a b c])
  show ?thesis by (rule exI [of _ m']) (intro conjI cl a b c d)
qed

lemma ex_history_eval:
  "exec_all ex_history (init_Manager ex_cfg) = Inr (after ex_history (init_Manager ex_cfg))"
  "watchers (after ex_history (init_Manager ex_cfg)) = [''web'' \<mapsto> [0 \<mapsto> 0]]"
  "proxies (after ex_history (init_Manager ex_cfg)) = [''web'' \<mapsto> 0]"
  "stateCh (after ex_history (init_Manager ex_cfg)) = Some 0"
  "sigStore (after ex_history (init_Manager ex_cfg)) 0 = \<lparr>buf = [], cap = 1, ch_closed = False\<rparr>"
  "chanStore (after ex_history (init_Manager ex_cfg)) 0 = \<lparr>buf = [], cap = 1, ch_closed = False\<rparr>"
  by (simp_all add: ex_history_def after_def exec_all_def Watch_def Let_def
      pass_def ensure_all_def remove_all_def ensure_step_def
      remove_step_def ensureProxyServiceLocked_def ensure_new_def newState_def state_Watch_def
      init_Manager_def registry_proxy_def env_ok_def web_proxy_def)

lemma ex_closed_eval:
  "Close [(''web'', [0])] [''web''] (after ex_history (init_Manager ex_cfg)) = Inr ex_closed"
  by (simp add: ex_closed_def after_def [of "[OpClose [(''web'', [0])] [''web'']]"] exec_all_def
      Close_def close_stateCh_def close_watchers_step_def closeWatchLocked_def chan_close_def
      close_state_step_def state_Close_def Let_def ex_history_eval)

theorem Close_idempotent_witness:
  "NewManager ex_cfg = Inr (init_Manager ex_cfg) \<and>
   exec_all ex_history (init_Manager ex_cfg) = Inr (after ex_history (init_Manager ex_cfg)) \<and>
   worder_of (after ex_history (init_Manager ex_cfg)) [(''web'', [0])] \<and>
   range_of (proxies (after ex_history (init_Manager ex_cfg))) [''web''] \<and>
   Close [(''web'', [0])] [''web''] (after ex_history (init_Manager ex_cfg)) = Inr ex_closed \<and>
   Close [] [] ex_closed = Inr ex_closed"
proof -
  have h3: "worder_of (after ex_history (init_Manager ex_cfg)) [(''web'', [0])]"
    by (simp add: worder_of_def range_of_def ex_history_eval)
  have h4: "range_of (proxies (after ex_history (init_Manager ex_cfg))) [''web'']"
    by (simp add: range_of_def ex_history_eval)
  from Close_idempotent [OF NewManager_ex ex_history_eval(1) h3 h4, of "[]" "[]"]
  show ?thesis by (simp add: NewManager_ex ex_history_eval(1) h3 h4 ex_closed_eval)
qed

subsection \<open>Identifiers derived from the watcher count\<close>

lemma WatchE:
  obtains m' where "Watch p m = Inr ((nextChan m, (p, next_idx m p)), m')"
    and "watchers m' = (watchers m)(p \<mapsto> (watchers_of m p)(next_idx m p \<mapsto> nextChan m))"
    and "chanStore m' = (chanStore m)(nextChan m := \<lparr>buf = snapshot_of m p, cap = 1, ch_closed = False\<rparr>)"
    and "nextChan m' = Suc (nextChan m)"
    and "proxies m' = proxies m" and "stateStore m' = stateStore m"
proof -
  from Watch_result [of p m] obtain m' where
    all: "Watch p m = Inr ((nextChan m, (p, next_idx m p)), m') \<and>
     watchers m' = (watchers m)(p \<mapsto> (watchers_of m p)(next_idx m p \<mapsto> nextChan m)) \<and>
     chanStore m' = (chanStore m)(nextChan m := \<lparr>buf = snapshot_of m p, cap = 1, ch_closed = False\<rparr>) \<and>
     nextChan m' = Suc (nextChan m) \<and> proxies m' = proxies m \<and> stateStore m' = stateStore m \<and>
     nextState m' = nextState m \<and> stateCh m' = stateCh m \<and> sigStore m' = sigStore m \<and> cfg m' = cfg m" ..
  then show ?thesis by (elim conjE) (rule that; assumption)
qed

lemma snapshot_of_cong:
  "proxies m' = proxies m \<Longrightarrow> stateStore m' = stateStore m \<Longrightarrow> snapshot_of m' p = snapshot_of m p"
  by (simp add: snapshot_of_def split: option.splits)

lemma next_idx_fresh:
  assumes "next_idx m p \<notin> dom (watchers_of m p)"
    and "watchers m' = (watchers m)(p \<mapsto> (watchers_of m p)(next_idx m p \<mapsto> c))"
  shows "next_idx m' p = next_idx m p + 1"
proof -
  have "watchers_of m' p = (watchers_of m p)(next_idx m p \<mapsto> c)"
    by (simp add: watchers_of_def assms(2))
  then have "card (dom (watchers_of m' p)) = Suc (card (dom (watchers_of m p)))"
    using assms(1) by simp
  then show ?thesis by (simp add: next_idx_def)
qed

lemma word_succ_neq: "(x :: 64 word) + 1 \<noteq> x"
  by simp

text \<open>Two registrations on a proxy without watchers, the cancellation of the first, and a
  third registration.\<close>

lemma collision:
  assumes none: "watchers m p = None"
  obtains m1 m2 m3 m4 where
    "Watch p m = Inr ((nextChan m, (p, 0)), m1)"
    and "Watch p m1 = Inr ((Suc (nextChan m), (p, 1)), m2)"
    and "closeWatchLocked p 0 m2 = Inr m3"
    and "Watch p m3 = Inr ((Suc (Suc (nextChan m)), (p, 1)), m4)"
    and "watchers m2 = (watchers m)(p \<mapsto> [0 \<mapsto> nextChan m, 1 \<mapsto> Suc (nextChan m)])"
    and "watchers m3 = (watchers m)(p \<mapsto> [1 \<mapsto> Suc (nextChan m)])"
    and "watchers m4 = (watchers m)(p \<mapsto> [1 \<mapsto> Suc (Suc (nextChan m))])"
    and "nextChan m4 = Suc (Suc (Suc (nextChan m)))"
    and "chanStore m4 (Suc (nextChan m)) = \<lparr>buf = snapshot_of m p, cap = 1, ch_closed = False\<rparr>"
    and "chanStore m4 (Suc (Suc (nextChan m))) = \<lparr>buf = snapshot_of m p, cap = 1, ch_closed = False\<rparr>"
proof -
  let ?c = "nextChan m"
  have w0: "watchers_of m p = Map.empty" by (simp add: watchers_of_def none)
  have i0: "next_idx m p = 0" by (simp add: next_idx_def w0)
  obtain m1 where r1: "Watch p m = Inr ((?c, (p, next_idx m p)), m1)"
    and ws1: "watchers m1 = (watchers m)(p \<mapsto> (watchers_of m p)(next_idx m p \<mapsto> ?c))"
    and cs1: "chanStore m1 = (chanStore m)(?c := \<lparr>buf = snapshot_of m p, cap = 1, ch_closed = False\<rparr>)"
    and nc1: "nextChan m1 = Suc ?c"
    and px1: "proxies m1 = proxies m" and ss1: "stateStore m1 = stateStore m"
    by (rule WatchE)
  have w1: "watchers_of m1 p = [0 \<mapsto> ?c]" by (simp add: watchers_of_def [of m1] ws1 w0 i0)
  have i1: "next_idx m1 p = 1" by (simp add: next_idx_def w1)
  have sn1: "snapshot_of m1 p = snapshot_of m p" by (rule snapshot_of_cong [OF px1 ss1])
  obtain m2 where r2: "Watch p m1 = Inr ((nextChan m1, (p, next_idx m1 p)), m2)"
    and ws2: "watchers m2 = (watchers m1)(p \<mapsto> (watchers_of m1 p)(next_idx m1 p \<mapsto> nextChan m1))"
    and cs2: "chanStore m2 = (chanStore m1)(nextChan m1 := \<lparr>buf = snapshot_of m1 p, cap = 1, ch_closed = False\<rparr>)"
    and nc2: "nextChan m2 = Suc (nextChan m1)"
    and px2: "proxies m2 = proxies m1" and ss2: "stateStore m2 = stateStore m1"
    by (rule WatchE)
  have e2: "watchers m2 = (watchers m)(p \<mapsto> [0 \<mapsto> ?c, 1 \<mapsto> Suc ?c])"
    by (simp add: ws2 ws1 w1 i1 nc1)
  have p2: "watchers m2 p = Some [0 \<mapsto> ?c, 1 \<mapsto> Suc ?c]" by (simp add: e2)
  have l2: "[0 \<mapsto> ?c, 1 \<mapsto> Suc ?c] (0 :: 64 word) = Some ?c" by simp
  have o2: "\<not> ch_closed (chanStore m2 ?c)" by (simp add: cs2 cs1 nc1)
  let ?m3 = "m2\<lparr>watchers := (if [0 \<mapsto> ?c, 1 \<mapsto> Suc ?c]((0 :: 64 word) := None) = Map.empty then (watchers m2)(p := None)
                          else (watchers m2)(p \<mapsto> [0 \<mapsto> ?c, 1 \<mapsto> Suc ?c]((0 :: 64 word) := None))),
            chanStore := (chanStore m2)(?c := (chanStore m2 ?c)\<lparr>ch_closed := True\<rparr>),
            trace := trace m2 @ [EvChanClose ?c]\<rparr>"
  have r3: "closeWatchLocked p 0 m2 = Inr ?m3" by (rule closeWatchLocked_present [OF p2 l2 o2])
  have rest: "[0 \<mapsto> ?c, 1 \<mapsto> Suc ?c]((0 :: 64 word) := None) = [(1 :: 64 word) \<mapsto> Suc ?c]"
    by (intro ext) simp
  have ne: "[(1 :: 64 word) \<mapsto> Suc ?c] \<noteq> Map.empty"
    by (metis map_upd_nonempty)
  have e3: "watchers ?m3 = (watchers m)(p \<mapsto> [1 \<mapsto> Suc ?c])"
    by (simp add: rest ne e2)
  have w3: "watchers_of ?m3 p = [1 \<mapsto> Suc ?c]" by (simp only: watchers_of_def e3) simp
  have i3: "next_idx ?m3 p = 1" by (simp only: next_idx_def w3) simp
  have nc3: "nextChan ?m3 = Suc (Suc ?c)" by (simp add: nc2 nc1)
  have sn3: "snapshot_of ?m3 p = snapshot_of m p"
    by (simp add: snapshot_of_def px2 px1 ss2 ss1 split: option.splits)
  obtain m4 where r4: "Watch p ?m3 = Inr ((nextChan ?m3, (p, next_idx ?m3 p)), m4)"
    and ws4: "watchers m4 = (watchers ?m3)(p \<mapsto> (watchers_of ?m3 p)(next_idx ?m3 p \<mapsto> nextChan ?m3))"
    and cs4: "chanStore m4 = (chanStore ?m3)(nextChan ?m3 := \<lparr>buf = snapshot_of ?m3 p, cap = 1, ch_closed = False\<rparr>)"
    and nc4: "nextChan m4 = Suc (nextChan ?m3)"
    and px4: "proxies m4 = proxies ?m3" and ss4: "stateStore m4 = stateStore ?m3"
    by (rule WatchE)
  have e4: "watchers m4 = (watchers m)(p \<mapsto> [1 \<mapsto> Suc (Suc ?c)])"
    by (simp only: ws4 e3 w3 i3 nc3) simp
  have c41: "chanStore m4 (Suc ?c) = \<lparr>buf = snapshot_of m p, cap = 1, ch_closed = False\<rparr>"
    by (simp only: cs4 nc3 sn3) (simp add: cs2 nc1 sn1)
  have c42: "chanStore m4 (Suc (Suc ?c)) = \<lparr>buf = snapshot_of m p, cap = 1, ch_closed = False\<rparr>"
    by (simp only: cs4 nc3 sn3) simp
  show ?thesis
  proof (rule that [of m1 m2 ?m3 m4])
    show "Watch p m = Inr ((?c, (p, 0)), m1)" using r1 by (simp only: i0)
    show "Watch p m1 = Inr ((Suc ?c, (p, 1)), m2)" using r2 by (simp only: i1 nc1)
    show "closeWatchLocked p 0 m2 = Inr ?m3" by (rule r3)
    show "Watch p ?m3 = Inr ((Suc (Suc ?c), (p, 1)), m4)" using r4 by (simp only: i3 nc3)
    show "watchers m2 = (watchers m)(p \<mapsto> [0 \<mapsto> ?c, 1 \<mapsto> Suc ?c])" by (rule e2)
    show "watchers ?m3 = (watchers m)(p \<mapsto> [1 \<mapsto> Suc ?c])" by (rule e3)
    show "watchers m4 = (watchers m)(p \<mapsto> [1 \<mapsto> Suc (Suc ?c)])" by (rule e4)
    show "nextChan m4 = Suc (Suc (Suc ?c))" by (simp only: nc4 nc3)
    show "chanStore m4 (Suc ?c) = \<lparr>buf = snapshot_of m p, cap = 1, ch_closed = False\<rparr>" by (rule c41)
    show "chanStore m4 (Suc (Suc ?c)) = \<lparr>buf = snapshot_of m p, cap = 1, ch_closed = False\<rparr>" by (rule c42)
  qed
qed

subsection \<open>Queues that the watcher map no longer refers to\<close>

lemma kept_refl: "orphan m c \<Longrightarrow> kept m c m"
  by (simp add: kept_def)

lemma kept_trans: "kept m c s \<Longrightarrow> kept s c s' \<Longrightarrow> kept m c s'"
  by (simp add: kept_def)

lemma kept_cong:
  "watchers s' = watchers s \<Longrightarrow> nextChan s' = nextChan s \<Longrightarrow> chanStore s' c = chanStore s c \<Longrightarrow>
   orphan s c \<Longrightarrow> kept s c s'"
  by (simp add: kept_def orphan_def registered_def)

lemma kept_same: "same_watchers s s' \<Longrightarrow> orphan s c \<Longrightarrow> kept s c s'"
  by (rule kept_cong) (simp_all add: same_watchers_def)

lemma registeredI: "watchers m p = Some ws \<Longrightarrow> ws i = Some c \<Longrightarrow> c \<in> registered m"
  unfolding registered_def by blast

lemma registered_subset:
  assumes "\<And>q ws i d. watchers s' q = Some ws \<Longrightarrow> ws i = Some d \<Longrightarrow> d \<in> registered s \<or> d = e"
  shows "registered s' \<subseteq> insert e (registered s)"
  using assms unfolding registered_def [of s'] by blast

lemma kept_Watch:
  assumes o: "orphan m c" and w: "Watch p m = Inr (res, m')"
  shows "kept m c m'"
proof -
  obtain m1 where r1: "Watch p m = Inr ((nextChan m, (p, next_idx m p)), m1)"
    and ws1: "watchers m1 = (watchers m)(p \<mapsto> (watchers_of m p)(next_idx m p \<mapsto> nextChan m))"
    and cs1: "chanStore m1 = (chanStore m)(nextChan m := \<lparr>buf = snapshot_of m p, cap = 1, ch_closed = False\<rparr>)"
    and nc1: "nextChan m1 = Suc (nextChan m)"
    and px1: "proxies m1 = proxies m" and ss1: "stateStore m1 = stateStore m"
    by (rule WatchE)
  from r1 w have eq: "m' = m1" by simp
  from o have lt: "c < nextChan m" and nr: "c \<notin> registered m" by (simp_all add: orphan_def)
  have "registered m1 \<subseteq> insert (nextChan m) (registered m)"
  proof (rule registered_subset)
    fix q ws i d assume a: "watchers m1 q = Some ws" "ws i = Some d"
    show "d \<in> registered m \<or> d = nextChan m"
    proof (cases "q = p")
      case False
      with a have "watchers m q = Some ws" by (simp add: ws1)
      with a(2) show ?thesis by (auto intro: registeredI)
    next
      case True
      with a have ws: "ws = (watchers_of m p)(next_idx m p \<mapsto> nextChan m)" by (simp add: ws1)
      show ?thesis
      proof (cases "i = next_idx m p")
        case True
        with a(2) ws show ?thesis by simp
      next
        case False
        with a(2) ws have "watchers_of m p i = Some d" by simp
        then obtain ws0 where "watchers m p = Some ws0" "ws0 i = Some d"
          by (auto simp: watchers_of_def split: option.splits)
        then show ?thesis by (auto intro: registeredI)
      qed
    qed
  qed
  with lt nr have "c \<notin> registered m1" by auto
  moreover have "c < nextChan m1" using lt nc1 by simp
  moreover have "chanStore m1 c = chanStore m c" using lt by (simp add: cs1)
  ultimately show ?thesis unfolding eq by (simp add: kept_def orphan_def)
qed

lemma kept_closeWatchLocked:
  assumes o: "orphan m c" and r: "closeWatchLocked p i m = Inr m'"
  shows "kept m c m'"
proof (cases "watchers_of m p i")
  case None
  with r have "m' = m" by (simp add: closeWatchLocked_absent)
  with o show ?thesis by (simp add: kept_refl)
next
  case (Some ch)
  then obtain ws where ws: "watchers m p = Some ws" "ws i = Some ch"
    by (auto simp: watchers_of_def split: option.splits)
  from o have lt: "c < nextChan m" and nr: "c \<notin> registered m" by (simp_all add: orphan_def)
  from ws have "ch \<in> registered m" by (rule registeredI)
  with nr have neq: "c \<noteq> ch" by auto
  have op: "\<not> ch_closed (chanStore m ch)"
  proof
    assume "ch_closed (chanStore m ch)"
    from closeWatchLocked_closed [OF ws this] r show False by simp
  qed
  let ?m' = "m\<lparr>watchers := (if ws(i := None) = Map.empty then (watchers m)(p := None)
                          else (watchers m)(p \<mapsto> ws(i := None))),
            chanStore := (chanStore m)(ch := (chanStore m ch)\<lparr>ch_closed := True\<rparr>),
            trace := trace m @ [EvChanClose ch]\<rparr>"
  from closeWatchLocked_present [OF ws op] r have eq: "m' = ?m'" by simp
  have "registered ?m' \<subseteq> insert ch (registered m)"
  proof (rule registered_subset)
    fix q ws1 j d assume a: "watchers ?m' q = Some ws1" "ws1 j = Some d"
    then have "\<exists>ws0. watchers m q = Some ws0 \<and> ws0 j = Some d"
      using ws by (auto split: if_splits)
    then show "d \<in> registered m \<or> d = ch" by (auto intro: registeredI)
  qed
  with nr neq have "c \<notin> registered ?m'" by auto
  moreover have "c < nextChan ?m'" using lt by simp
  moreover have "chanStore ?m' c = chanStore m c" using neq by simp
  ultimately show ?thesis unfolding eq by (simp add: kept_def orphan_def)
qed

lemma kept_notify:
  assumes o: "orphan m c" and r: "notify snap order m = Inr m'"
  shows "kept m c m'"
proof (cases "watchers m (ProxyID snap)")
  case None
  with r have "m' = m" by (simp add: notify_def)
  with o show ?thesis by (simp add: kept_refl)
next
  case (Some ws)
  with r have l: "range_loop (\<lambda>k m'. case ws k of None \<Rightarrow> Inr m' | Some ch \<Rightarrow> chan_try_send ch snap m')
            order m = Inr m'"
    by (simp add: notify_def)
  let ?P = "\<lambda>s. watchers s = watchers m \<and> nextChan s = nextChan m \<and> chanStore s c = chanStore m c"
  from o have nr: "c \<notin> registered m" by (simp add: orphan_def)
  have "?P m" by simp
  then have "?P m'" using l
  proof (rule range_loop_inv [where P = ?P, rotated])
    fix k s s'
    assume P: "?P s" and st: "(case ws k of None \<Rightarrow> Inr s | Some ch \<Rightarrow> chan_try_send ch snap s) = Inr s'"
    show "?P s'"
    proof (cases "ws k")
      case None
      with st P show ?thesis by simp
    next
      case (Some ch)
      from registeredI [OF \<open>watchers m (ProxyID snap) = Some ws\<close> Some] nr have "c \<noteq> ch" by auto
      with st P Some show ?thesis
        by (auto simp: chan_try_send_def split: if_splits)
    qed
  qed
  then show ?thesis using o by (intro kept_cong) simp_all
qed

lemma kept_close_watchers_step:
  assumes o: "orphan m c" and r: "close_watchers_step pw m = Inr m'"
  shows "kept m c m'"
proof -
  have "kept m c m" using o by (rule kept_refl)
  then show ?thesis using r [unfolded close_watchers_step_def]
  proof (rule range_loop_inv [where P = "kept m c" and f = "closeWatchLocked (fst pw)", rotated])
    fix i s s' assume k: "kept m c s" and st: "closeWatchLocked (fst pw) i s = Inr s'"
    from k have "orphan s c" by (simp add: kept_def)
    from kept_trans [OF k kept_closeWatchLocked [OF this st]] show "kept m c s'" .
  qed
qed

lemma kept_Close:
  assumes o: "orphan m c" and r: "Close wo po m = Inr m'"
  shows "kept m c m'"
proof -
  from r obtain m1 m2 where s: "close_stateCh m = Inr m1"
    "range_loop close_watchers_step wo m1 = Inr m2" "m' = fold close_state_step po m2"
    by (auto simp: Close_def split: sum.splits)
  from s(1) have "watchers m1 = watchers m" "nextChan m1 = nextChan m" "chanStore m1 c = chanStore m c"
    by (auto simp: close_stateCh_def split: option.splits if_splits)
  then have k1: "kept m c m1" using o by (rule kept_cong)
  then have k2: "kept m c m2" using s(2)
  proof (rule range_loop_inv [where P = "kept m c" and f = close_watchers_step, rotated])
    fix pw s s' assume k: "kept m c s" and st: "close_watchers_step pw s = Inr s'"
    from k have "orphan s c" by (simp add: kept_def)
    from kept_trans [OF k kept_close_watchers_step [OF this st]] show "kept m c s'" .
  qed
  have "same_watchers m2 m'" unfolding s(3) by (rule fold_same) (rule close_state_step_same)
  moreover from k2 have "orphan m2 c" by (simp add: kept_def)
  ultimately have "kept m2 c m'" by (rule kept_same)
  with k2 show ?thesis by (rule kept_trans)
qed

lemma kept_exec:
  assumes o: "orphan m c" and r: "exec op m = Inr m'"
  shows "kept m c m'"
proof (cases op)
  case (OpWatch p)
  with r obtain res where "Watch p m = Inr (res, m')" by (auto split: sum.splits)
  with o show ?thesis by (rule kept_Watch)
next
  case (OpCancel cf)
  with r have "closeWatchLocked (fst cf) (snd cf) m = Inr m'" by (simp add: cancel_def)
  with o show ?thesis by (rule kept_closeWatchLocked)
next
  case (OpNotify snap order)
  with r have "notify snap order m = Inr m'" by simp
  with o show ?thesis by (rule kept_notify)
next
  case (OpPass env st so po)
  with r have "m' = pass env st so po m" by simp
  with kept_same [OF pass_same o] show ?thesis by simp
next
  case (OpClose wo po)
  with r have "Close wo po m = Inr m'" by simp
  with o show ?thesis by (rule kept_Close)
next
  case (OpSnapshot x snap)
  with r have "watchers m' = watchers m" "nextChan m' = nextChan m" "chanStore m' c = chanStore m c"
    by auto
  then show ?thesis using o by (rule kept_cong)
qed

lemma kept_exec_all:
  assumes o: "orphan m c" and r: "exec_all ops m = Inr m'"
  shows "kept m c m'"
proof -
  have "kept m c m" using o by (rule kept_refl)
  then show ?thesis using r [unfolded exec_all_def]
  proof (rule range_loop_inv [where P = "kept m c" and f = exec, rotated])
    fix op s s' assume k: "kept m c s" and st: "exec op s = Inr s'"
    from k have "orphan s c" by (simp add: kept_def)
    from kept_trans [OF k kept_exec [OF this st]] show "kept m c s'" .
  qed
qed

lemma after_Watch:
  "Watch p m = Inr ((nextChan m, (p, next_idx m p)), after [OpWatch p] m)"
  "watchers (after [OpWatch p] m) = (watchers m)(p \<mapsto> (watchers_of m p)(next_idx m p \<mapsto> nextChan m))"
  "nextChan (after [OpWatch p] m) = Suc (nextChan m)"
proof -
  obtain m1 where r1: "Watch p m = Inr ((nextChan m, (p, next_idx m p)), m1)"
    and ws1: "watchers m1 = (watchers m)(p \<mapsto> (watchers_of m p)(next_idx m p \<mapsto> nextChan m))"
    and cs1: "chanStore m1 = (chanStore m)(nextChan m := \<lparr>buf = snapshot_of m p, cap = 1, ch_closed = False\<rparr>)"
    and nc1: "nextChan m1 = Suc (nextChan m)"
    and px1: "proxies m1 = proxies m" and ss1: "stateStore m1 = stateStore m"
    by (rule WatchE)
  have a: "after [OpWatch p] m = m1" by (simp add: after_def exec_all_def r1)
  show "Watch p m = Inr ((nextChan m, (p, next_idx m p)), after [OpWatch p] m)"
    by (simp only: a r1)
  show "watchers (after [OpWatch p] m) = (watchers m)(p \<mapsto> (watchers_of m p)(next_idx m p \<mapsto> nextChan m))"
    by (simp only: a ws1)
  show "nextChan (after [OpWatch p] m) = Suc (nextChan m)" by (simp only: a nc1)
qed

lemma gap_manager_eval:
  "exec_all gap_history (init_Manager ex_cfg) = Inr gap_manager"
  "watchers gap_manager = [''web'' \<mapsto> [1 \<mapsto> 1]]"
  "nextChan gap_manager = 2"
proof -
  obtain m1 m2 m3 m4 where
    r1: "Watch ''web'' (init_Manager ex_cfg) = Inr ((nextChan (init_Manager ex_cfg), (''web'', 0)), m1)"
    and r2: "Watch ''web'' m1 = Inr ((Suc (nextChan (init_Manager ex_cfg)), (''web'', 1)), m2)"
    and r3: "closeWatchLocked ''web'' 0 m2 = Inr m3"
    and r4: "Watch ''web'' m3 = Inr ((Suc (Suc (nextChan (init_Manager ex_cfg))), (''web'', 1)), m4)"
    and e2: "watchers m2 = (watchers (init_Manager ex_cfg))(''web'' \<mapsto> [0 \<mapsto> nextChan (init_Manager ex_cfg), 1 \<mapsto> Suc (nextChan (init_Manager ex_cfg))])"
    and e3: "watchers m3 = (watchers (init_Manager ex_cfg))(''web'' \<mapsto> [1 \<mapsto> Suc (nextChan (init_Manager ex_cfg))])"
    and e4: "watchers m4 = (watchers (init_Manager ex_cfg))(''web'' \<mapsto> [1 \<mapsto> Suc (Suc (nextChan (init_Manager ex_cfg)))])"
    and n4: "nextChan m4 = Suc (Suc (Suc (nextChan (init_Manager ex_cfg))))"
    and c1: "chanStore m4 (Suc (nextChan (init_Manager ex_cfg))) = \<lparr>buf = snapshot_of (init_Manager ex_cfg) ''web'', cap = 1, ch_closed = False\<rparr>"
    and c2: "chanStore m4 (Suc (Suc (nextChan (init_Manager ex_cfg)))) = \<lparr>buf = snapshot_of (init_Manager ex_cfg) ''web'', cap = 1, ch_closed = False\<rparr>"
    by (rule collision [of "init_Manager ex_cfg" "''web''"]) (simp add: init_Manager_def)
  have ex: "exec_all gap_history (init_Manager ex_cfg) = Inr m3"
    by (simp add: gap_history_def exec_all_def r1 r2 r3 cancel_def)
  then have g: "gap_manager = m3" by (simp add: gap_manager_def after_def)
  show "exec_all gap_history (init_Manager ex_cfg) = Inr gap_manager" by (simp only: g ex)
  show "watchers gap_manager = [''web'' \<mapsto> [1 \<mapsto> 1]]"
    by (simp only: g e3) (simp add: init_Manager_def)
  from r3 have "nextChan m3 = nextChan m2"
    by (auto simp: closeWatchLocked_def chan_close_def Let_def split: option.splits if_splits)
  moreover from r2 after_Watch(1,3) [of "''web''" m1] have "nextChan m2 = Suc (nextChan m1)" by simp
  moreover from r1 after_Watch(1,3) [of "''web''" "init_Manager ex_cfg"]
  have "nextChan m1 = Suc (nextChan (init_Manager ex_cfg))" by simp
  ultimately show "nextChan gap_manager = 2" by (simp add: g init_Manager_def)
qed

lemma gap_idx: "next_idx gap_manager ''web'' = 1" "next_idx gap_manager1 ''web'' = 1"
proof -
  show a: "next_idx gap_manager ''web'' = 1"
    by (simp add: next_idx_def watchers_of_def gap_manager_eval)
  have "watchers gap_manager1 = [''web'' \<mapsto> [1 \<mapsto> 2]]"
    unfolding gap_manager1_def after_Watch(2) a by (simp add: watchers_of_def gap_manager_eval)
  then show "next_idx gap_manager1 ''web'' = 1"
    by (simp add: next_idx_def watchers_of_def)
qed

text \<open>
  The claim as stated fails: after two watches on \<open>web\<close> and the cancellation of the first,
  the watcher set of \<open>web\<close> holds identifier 1 alone, and the two registrations that follow,
  with no cancellation in between, are both assigned identifier 1.
\<close>

theorem Watch_repeats_identifier_counterexample:
  "exec_all gap_history (init_Manager ex_cfg) = Inr gap_manager \<and>
   Watch ''web'' gap_manager = Inr ((2, (''web'', 1)), gap_manager1) \<and>
   Watch ''web'' gap_manager1 = Inr ((3, (''web'', 1)), gap_manager2)"
proof -
  have n1: "nextChan gap_manager1 = 3"
    unfolding gap_manager1_def after_Watch(3) by (simp add: gap_manager_eval)
  have a: "Watch ''web'' gap_manager = Inr ((2, (''web'', 1)), gap_manager1)"
    using after_Watch(1) [of "''web''" gap_manager]
    by (simp only: gap_idx gap_manager_eval(3) gap_manager1_def)
  have b: "Watch ''web'' gap_manager1 = Inr ((3, (''web'', 1)), gap_manager2)"
    using after_Watch(1) [of "''web''" gap_manager1]
    by (simp only: gap_idx n1 gap_manager2_def)
  from gap_manager_eval(1) a b show ?thesis by (intro conjI)
qed

lemma init_fields:
  "watchers (init_Manager c) = Map.empty" "nextChan (init_Manager c) = 0"
  "proxies (init_Manager c) = Map.empty"
  by (simp_all add: init_Manager_def)

subsection \<open>Identifiers in histories without cancellation\<close>

lemma seg_fresh:
  fixes ws :: "64 word \<rightharpoonup> nat"
  assumes seg: "dom ws = {i. unat i < card (dom ws)}" and b: "card (dom ws) < 2 ^ 64"
  shows "of_nat (card (dom ws)) \<notin> dom ws"
proof
  assume "of_nat (card (dom ws)) \<in> dom ws"
  with seg have "unat (of_nat (card (dom ws)) :: 64 word) < card (dom ws)" by blast
  moreover have "unat (of_nat (card (dom ws)) :: 64 word) = card (dom ws)"
    using b by (simp add: unat_of_nat)
  ultimately show False by simp
qed

lemma seg_step:
  fixes ws :: "64 word \<rightharpoonup> nat"
  assumes seg: "dom ws = {i. unat i < card (dom ws)}"
  shows "dom (ws(of_nat (card (dom ws)) \<mapsto> c)) =
         {i. unat i < card (dom (ws(of_nat (card (dom ws)) \<mapsto> c)))}"
proof (cases "of_nat (card (dom ws)) \<in> dom ws")
  case True
  then have "dom (ws(of_nat (card (dom ws)) \<mapsto> c)) = dom ws" by auto
  with seg show ?thesis by simp
next
  case False
  let ?n = "card (dom ws)"
  let ?x = "of_nat ?n :: 64 word"
  from False seg have "\<not> unat ?x < ?n" by blast
  then have ge: "?n \<le> ?n mod 2 ^ 64" by (simp add: unat_of_nat)
  have "?n mod 2 ^ 64 < (2 :: nat) ^ 64" by simp
  with ge have lt: "?n < 2 ^ 64" by linarith
  then have ux: "unat ?x = ?n" by (simp add: unat_of_nat)
  have c: "card (dom (ws(?x \<mapsto> c))) = Suc ?n" using False by simp
  have "dom (ws(?x \<mapsto> c)) = insert ?x (dom ws)" by simp
  also have "\<dots> = insert ?x {i. unat i < ?n}" using seg by simp
  also have "\<dots> = {i :: 64 word. unat i < Suc ?n}"
  proof (intro set_eqI iffI)
    fix i :: "64 word" assume "i \<in> insert ?x {i. unat i < ?n}"
    then show "i \<in> {i. unat i < Suc ?n}" using ux by auto
  next
    fix i :: "64 word" assume "i \<in> {i. unat i < Suc ?n}"
    then have "unat i < ?n \<or> unat i = unat ?x" using ux by auto
    then show "i \<in> insert ?x {i. unat i < ?n}" by (auto simp: word_unat_eq_iff)
  qed
  finally have e: "dom (ws(?x \<mapsto> c)) = {i :: 64 word. unat i < Suc ?n}" .
  show ?thesis unfolding c by (rule e)
qed


lemma closeWatchLocked_other:
  "closeWatchLocked q i m = Inr m' \<Longrightarrow> q \<noteq> p \<Longrightarrow> watchers m' p = watchers m p"
  by (auto simp: closeWatchLocked_def chan_close_def Let_def split: option.splits if_splits)

lemma notify_watchers:
  assumes "notify snap order m = Inr m'"
  shows "watchers m' = watchers m"
proof (cases "watchers m (ProxyID snap)")
  case None
  with assms show ?thesis by (simp add: notify_def)
next
  case (Some ws)
  with assms have l: "range_loop (\<lambda>k m'. case ws k of None \<Rightarrow> Inr m' | Some ch \<Rightarrow> chan_try_send ch snap m')
            order m = Inr m'"
    by (simp add: notify_def)
  have "watchers m = watchers m" by simp
  then show ?thesis using l
    by (rule range_loop_inv [where P = "\<lambda>s. watchers s = watchers m", rotated])
      (auto simp: chan_try_send_def split: option.splits if_splits)
qed

lemma ids_below_count_cong:
  "watchers m' p = watchers m p \<Longrightarrow> ids_below_count m p \<Longrightarrow> ids_below_count m' p"
  by (simp add: ids_below_count_def watchers_of_def)

lemma ids_below_count_Watch:
  assumes i: "ids_below_count m p" and w: "Watch q m = Inr (res, m')"
  shows "ids_below_count m' p"
proof -
  obtain m1 where r1: "Watch q m = Inr ((nextChan m, (q, next_idx m q)), m1)"
    and ws1: "watchers m1 = (watchers m)(q \<mapsto> (watchers_of m q)(next_idx m q \<mapsto> nextChan m))"
    and cs1: "chanStore m1 = (chanStore m)(nextChan m := \<lparr>buf = snapshot_of m q, cap = 1, ch_closed = False\<rparr>)"
    and nc1: "nextChan m1 = Suc (nextChan m)"
    and px1: "proxies m1 = proxies m" and ss1: "stateStore m1 = stateStore m"
    by (rule WatchE)
  from r1 w have eq: "m' = m1" by simp
  show ?thesis
  proof (cases "q = p")
    case False
    then have "watchers m1 p = watchers m p" by (simp add: ws1)
    then show ?thesis unfolding eq using i by (rule ids_below_count_cong)
  next
    case True
    have "watchers_of m1 p = (watchers_of m p)(of_nat (card (dom (watchers_of m p))) \<mapsto> nextChan m)"
      by (simp add: watchers_of_def [of m1] ws1 True next_idx_def)
    then show ?thesis
      unfolding eq ids_below_count_def [of m1]
      using seg_step [OF i [unfolded ids_below_count_def], of "nextChan m"] by (simp only:)
  qed
qed

lemma ids_below_count_exec:
  assumes i: "ids_below_count m p" and e: "exec op m = Inr m'" and n: "\<not> cancels p op"
  shows "ids_below_count m' p"
proof (cases op)
  case (OpWatch q)
  with e obtain res where "Watch q m = Inr (res, m')" by (auto split: sum.splits)
  with i show ?thesis by (rule ids_below_count_Watch)
next
  case (OpCancel cf)
  with n have "fst cf \<noteq> p" by simp
  moreover from OpCancel e have "closeWatchLocked (fst cf) (snd cf) m = Inr m'"
    by (simp add: cancel_def)
  ultimately have "watchers m' p = watchers m p" by (rule closeWatchLocked_other [rotated])
  then show ?thesis using i by (rule ids_below_count_cong)
next
  case (OpNotify snap order)
  with e have "watchers m' = watchers m" by (simp add: notify_watchers)
  then have "watchers m' p = watchers m p" by simp
  then show ?thesis using i by (rule ids_below_count_cong)
next
  case (OpPass env st so po)
  with e pass_same [of m env st so po] have "watchers m' = watchers m"
    by (auto simp: same_watchers_def)
  then have "watchers m' p = watchers m p" by simp
  then show ?thesis using i by (rule ids_below_count_cong)
next
  case (OpClose wo po)
  with n show ?thesis by simp
next
  case (OpSnapshot r snap)
  with e have "watchers m' p = watchers m p" by auto
  then show ?thesis using i by (rule ids_below_count_cong)
qed

lemma ids_below_count_exec_all:
  assumes "ids_below_count m p" and "exec_all ops m = Inr m'" and "\<forall>op\<in>set ops. \<not> cancels p op"
  shows "ids_below_count m' p"
  using assms unfolding exec_all_def
proof (induction ops arbitrary: m)
  case Nil
  then show ?case by simp
next
  case (Cons op ops)
  from Cons.prems(2) obtain m1 where s: "exec op m = Inr m1" "range_loop exec ops m1 = Inr m'"
    by (auto split: sum.splits)
  from Cons.prems(3) have n: "\<not> cancels p op" "\<forall>op\<in>set ops. \<not> cancels p op" by simp_all
  from ids_below_count_exec [OF Cons.prems(1) s(1) n(1)] have "ids_below_count m1 p" .
  then show ?case using s(2) n(2) by (rule Cons.IH)
qed

lemma ids_below_count_reachable:
  assumes "NewManager c = Inr m0" and "exec_all ops m0 = Inr m"
    and "\<forall>op\<in>set ops. \<not> cancels p op"
  shows "ids_below_count m p"
proof -
  from assms(1) have "m0 = init_Manager c" by (auto simp: NewManager_def split: if_splits)
  then have "ids_below_count m0 p"
    by (simp add: ids_below_count_def watchers_of_def init_Manager_def)
  then show ?thesis using assms(2,3) by (rule ids_below_count_exec_all)
qed

lemma ids_below_count_fresh:
  assumes "ids_below_count m p" and "card (dom (watchers_of m p)) < 2 ^ 64"
  shows "next_idx m p \<notin> dom (watchers_of m p)"
  unfolding next_idx_def
  using assms(1) [unfolded ids_below_count_def] assms(2) by (rule seg_fresh)

lemma Watch_twice_fresh:
  assumes fresh: "next_idx m p \<notin> dom (watchers_of m p)"
  shows "\<exists>m1 m2. Watch p m = Inr ((nextChan m, (p, next_idx m p)), m1) \<and>
         Watch p m1 = Inr ((Suc (nextChan m), (p, next_idx m p + 1)), m2) \<and>
         next_idx m p + 1 \<noteq> next_idx m p"
proof -
  have a: "Watch p m = Inr ((nextChan m, (p, next_idx m p)), after [OpWatch p] m)"
    by (rule after_Watch(1))
  have i: "next_idx (after [OpWatch p] m) p = next_idx m p + 1"
    by (rule next_idx_fresh [OF fresh after_Watch(2)])
  have b: "Watch p (after [OpWatch p] m) =
      Inr ((Suc (nextChan m), (p, next_idx m p + 1)), after [OpWatch p] (after [OpWatch p] m))"
    using after_Watch(1) [of p "after [OpWatch p] m"] by (simp only: i after_Watch(3))
  have c: "next_idx m p + 1 \<noteq> next_idx m p" by (rule word_succ_neq)
  show ?thesis by (intro exI conjI) (rule a b c)+
qed

lemma watch_history_eval:
  "exec_all watch_history (init_Manager ex_cfg) = Inr (after watch_history (init_Manager ex_cfg))"
  "watchers (after watch_history (init_Manager ex_cfg)) = [''web'' \<mapsto> [0 \<mapsto> 0, 1 \<mapsto> 2]]"
  "nextChan (after watch_history (init_Manager ex_cfg)) = 3"
  by (simp_all add: watch_history_def after_def exec_all_def Watch_def cancel_def
      closeWatchLocked_def chan_close_def init_Manager_def Let_def numeral_2_eq_2 numeral_3_eq_3)

text \<open>
  C6 (as amended). \<^verbatim>\<open>Watch\<close> assigns the current number of watchers of the proxy as the
  identifier. In a manager where that number is not in use as an identifier of the proxy,
  two registrations in a row get the distinct identifiers \<open>n\<close> and \<open>n + 1\<close>. That is the case
  in every manager reached from \<^verbatim>\<open>NewManager\<close> by a history that holds no cancellation of a
  watcher of the proxy and no shutdown: there the identifiers in use are exactly those below
  the number of watchers, so that number, being below \<open>2 ^ 64\<close> as the length of a Go map
  is, is not in use. After two registrations on a proxy without watchers and the
  cancellation of the first, the next registration gets identifier 1, the identifier of the
  second.
\<close>

theorem Watch_identifiers:
  "(\<exists>m1. Watch p m = Inr ((nextChan m, (p, of_nat (card (dom (watchers_of m p))))), m1)) \<and>
   (next_idx m p \<notin> dom (watchers_of m p) \<longrightarrow>
      (\<exists>m1 m2. Watch p m = Inr ((nextChan m, (p, next_idx m p)), m1) \<and>
         Watch p m1 = Inr ((Suc (nextChan m), (p, next_idx m p + 1)), m2) \<and>
         next_idx m p + 1 \<noteq> next_idx m p)) \<and>
   (NewManager c = Inr m0 \<and> exec_all ops m0 = Inr m \<and> (\<forall>op\<in>set ops. \<not> cancels p op) \<longrightarrow>
      ids_below_count m p \<and>
      (card (dom (watchers_of m p)) < 2 ^ 64 \<longrightarrow>
         next_idx m p \<notin> dom (watchers_of m p) \<and>
         (\<exists>m1 m2. Watch p m = Inr ((nextChan m, (p, next_idx m p)), m1) \<and>
            Watch p m1 = Inr ((Suc (nextChan m), (p, next_idx m p + 1)), m2) \<and>
            next_idx m p + 1 \<noteq> next_idx m p))) \<and>
   (watchers m p = None \<longrightarrow>
      (\<exists>m1 m2 m3 m4. Watch p m = Inr ((nextChan m, (p, 0)), m1) \<and>
         Watch p m1 = Inr ((Suc (nextChan m), (p, 1)), m2) \<and>
         cancel (p, 0) m2 = Inr m3 \<and>
         Watch p m3 = Inr ((Suc (Suc (nextChan m)), (p, 1)), m4)))"
proof (intro conjI impI)
  show "\<exists>m1. Watch p m = Inr ((nextChan m, (p, of_nat (card (dom (watchers_of m p))))), m1)"
    using after_Watch(1) [of p m] unfolding next_idx_def by (rule exI)
next
  assume "next_idx m p \<notin> dom (watchers_of m p)"
  then show "\<exists>m1 m2. Watch p m = Inr ((nextChan m, (p, next_idx m p)), m1) \<and>
         Watch p m1 = Inr ((Suc (nextChan m), (p, next_idx m p + 1)), m2) \<and>
         next_idx m p + 1 \<noteq> next_idx m p"
    by (rule Watch_twice_fresh)
next
  assume h: "NewManager c = Inr m0 \<and> exec_all ops m0 = Inr m \<and> (\<forall>op\<in>set ops. \<not> cancels p op)"
  then show "ids_below_count m p" by (intro ids_below_count_reachable [of c m0 ops]) simp_all
next
  assume h: "NewManager c = Inr m0 \<and> exec_all ops m0 = Inr m \<and> (\<forall>op\<in>set ops. \<not> cancels p op)"
    and b: "card (dom (watchers_of m p)) < 2 ^ 64"
  from h have "ids_below_count m p" by (intro ids_below_count_reachable [of c m0 ops]) simp_all
  then show "next_idx m p \<notin> dom (watchers_of m p)" using b by (rule ids_below_count_fresh)
next
  assume h: "NewManager c = Inr m0 \<and> exec_all ops m0 = Inr m \<and> (\<forall>op\<in>set ops. \<not> cancels p op)"
    and b: "card (dom (watchers_of m p)) < 2 ^ 64"
  from h have "ids_below_count m p" by (intro ids_below_count_reachable [of c m0 ops]) simp_all
  then have "next_idx m p \<notin> dom (watchers_of m p)" using b by (rule ids_below_count_fresh)
  then show "\<exists>m1 m2. Watch p m = Inr ((nextChan m, (p, next_idx m p)), m1) \<and>
         Watch p m1 = Inr ((Suc (nextChan m), (p, next_idx m p + 1)), m2) \<and>
         next_idx m p + 1 \<noteq> next_idx m p"
    by (rule Watch_twice_fresh)
next
  assume none: "watchers m p = None"
  obtain m1 m2 m3 m4 where
    r1: "Watch p m = Inr ((nextChan m, (p, 0)), m1)"
    and r2: "Watch p m1 = Inr ((Suc (nextChan m), (p, 1)), m2)"
    and r3: "closeWatchLocked p 0 m2 = Inr m3"
    and r4: "Watch p m3 = Inr ((Suc (Suc (nextChan m)), (p, 1)), m4)"
    and e2: "watchers m2 = (watchers m)(p \<mapsto> [0 \<mapsto> nextChan m, 1 \<mapsto> Suc (nextChan m)])"
    and e3: "watchers m3 = (watchers m)(p \<mapsto> [1 \<mapsto> Suc (nextChan m)])"
    and e4: "watchers m4 = (watchers m)(p \<mapsto> [1 \<mapsto> Suc (Suc (nextChan m))])"
    and n4: "nextChan m4 = Suc (Suc (Suc (nextChan m)))"
    and c1: "chanStore m4 (Suc (nextChan m)) = \<lparr>buf = snapshot_of m p, cap = 1, ch_closed = False\<rparr>"
    and c2: "chanStore m4 (Suc (Suc (nextChan m))) = \<lparr>buf = snapshot_of m p, cap = 1, ch_closed = False\<rparr>"
    by (rule collision [OF none])
  from r3 have r3': "cancel (p, 0) m2 = Inr m3" by (simp add: cancel_def)
  show "\<exists>m1 m2 m3 m4. Watch p m = Inr ((nextChan m, (p, 0)), m1) \<and>
         Watch p m1 = Inr ((Suc (nextChan m), (p, 1)), m2) \<and>
         cancel (p, 0) m2 = Inr m3 \<and>
         Watch p m3 = Inr ((Suc (Suc (nextChan m)), (p, 1)), m4)"
    by (intro exI conjI) (rule r1 r2 r3' r4)+
qed

theorem Watch_identifiers_witness:
  "NewManager ex_cfg = Inr (init_Manager ex_cfg) \<and>
   exec_all watch_history (init_Manager ex_cfg) = Inr (after watch_history (init_Manager ex_cfg)) \<and>
   list_all (\<lambda>op. \<not> cancels ''web'' op) watch_history \<and>
   card (dom (watchers_of (after watch_history (init_Manager ex_cfg)) ''web'')) < 2 ^ 64 \<and>
   ids_below_count (after watch_history (init_Manager ex_cfg)) ''web'' \<and>
   next_idx (after watch_history (init_Manager ex_cfg)) ''web'' \<notin>
     dom (watchers_of (after watch_history (init_Manager ex_cfg)) ''web'') \<and>
   (\<exists>m1 m2. Watch ''web'' (after watch_history (init_Manager ex_cfg)) = Inr ((3, (''web'', 2)), m1) \<and>
         Watch ''web'' m1 = Inr ((4, (''web'', 3)), m2)) \<and>
   watchers (init_Manager ex_cfg) ''web'' = None \<and>
   (\<exists>m1 m2 m3 m4. Watch ''web'' (init_Manager ex_cfg) = Inr ((0, (''web'', 0)), m1) \<and>
         Watch ''web'' m1 = Inr ((1, (''web'', 1)), m2) \<and>
         cancel (''web'', 0) m2 = Inr m3 \<and>
         Watch ''web'' m3 = Inr ((2, (''web'', 1)), m4))"
proof -
  let ?m = "after watch_history (init_Manager ex_cfg)"
  have h3: "\<forall>op\<in>set watch_history. \<not> cancels ''web'' op" by (simp add: watch_history_def)
  have w: "watchers_of ?m ''web'' = [0 \<mapsto> 0, 1 \<mapsto> 2]"
    by (simp add: watchers_of_def watch_history_eval)
  have cd: "card (dom (watchers_of ?m ''web'')) = 2" by (simp add: w)
  then have h4: "card (dom (watchers_of ?m ''web'')) < 2 ^ 64" by simp
  have i: "next_idx ?m ''web'' = 2" by (simp add: next_idx_def cd)
  have h2: "watchers (init_Manager ex_cfg) ''web'' = None" by (simp add: init_fields)
  have hist: "NewManager ex_cfg = Inr (init_Manager ex_cfg) \<and>
      exec_all watch_history (init_Manager ex_cfg) = Inr ?m \<and>
      (\<forall>op\<in>set watch_history. \<not> cancels ''web'' op)"
    using NewManager_ex watch_history_eval(1) h3 by (intro conjI)
  have A: "ids_below_count ?m ''web'' \<and> next_idx ?m ''web'' \<notin> dom (watchers_of ?m ''web'') \<and>
      (\<exists>m1 m2. Watch ''web'' ?m = Inr ((3, (''web'', 2)), m1) \<and>
         Watch ''web'' m1 = Inr ((4, (''web'', 3)), m2))"
    using Watch_identifiers [of "''web''" ?m ex_cfg "init_Manager ex_cfg" watch_history] hist h4
    by (simp add: i watch_history_eval(3) numeral_3_eq_3 [symmetric] eval_nat_numeral(3) [symmetric])
  have B: "\<exists>m1 m2 m3 m4. Watch ''web'' (init_Manager ex_cfg) = Inr ((0, (''web'', 0)), m1) \<and>
         Watch ''web'' m1 = Inr ((1, (''web'', 1)), m2) \<and>
         cancel (''web'', 0) m2 = Inr m3 \<and>
         Watch ''web'' m3 = Inr ((2, (''web'', 1)), m4)"
    using Watch_identifiers [of "''web''" "init_Manager ex_cfg" ex_cfg "init_Manager ex_cfg" "[]"] h2
    by (simp add: init_fields numeral_2_eq_2)
  have h3': "list_all (\<lambda>op. \<not> cancels ''web'' op) watch_history"
    by (simp add: watch_history_def)
  from NewManager_ex watch_history_eval(1) h3' h4 A h2 B show ?thesis by (intro conjI) simp_all
qed

lemma wf_below: "wf_watchers m \<Longrightarrow> d \<in> registered m \<Longrightarrow> d < nextChan m"
  unfolding wf_watchers_def registered_def by blast

text \<open>
  C9. In a manager reached from \<^verbatim>\<open>NewManager\<close> where the proxy \<open>p\<close> has no watchers, register
  twice (identifiers 0 and 1), cancel the first and register again. The third registration
  gets identifier 1, that of the second watcher, which is still registered, and takes its
  place in the watcher set, so the watcher map no longer refers to the queue of the second
  watcher. The cancel function of the second watcher then closes the queue of the third
  and leaves its own open. And whatever the manager does from then on (registrations,
  cancellations, broadcasts, passes, shutdown), the queue of the second watcher stays as it
  was at its registration: never closed, nothing more delivered.
\<close>

theorem identifier_collision:
  assumes "NewManager c = Inr m0" and "exec_all ops m0 = Inr m" and "watchers m p = None"
  shows "\<exists>m1 m2 m3 m4 m5.
     Watch p m = Inr ((nextChan m, (p, 0)), m1) \<and>
     Watch p m1 = Inr ((Suc (nextChan m), (p, 1)), m2) \<and>
     cancel (p, 0) m2 = Inr m3 \<and>
     Watch p m3 = Inr ((Suc (Suc (nextChan m)), (p, 1)), m4) \<and>
     watchers m2 p = Some [0 \<mapsto> nextChan m, 1 \<mapsto> Suc (nextChan m)] \<and>
     watchers m4 p = Some [1 \<mapsto> Suc (Suc (nextChan m))] \<and>
     Suc (nextChan m) \<notin> registered m4 \<and>
     cancel (p, 1) m4 = Inr m5 \<and>
     ch_closed (chanStore m5 (Suc (Suc (nextChan m)))) \<and>
     \<not> ch_closed (chanStore m5 (Suc (nextChan m))) \<and>
     (\<forall>ops' m'. exec_all ops' m4 = Inr m' \<longrightarrow>
        chanStore m' (Suc (nextChan m)) = \<lparr>buf = snapshot_of m p, cap = 1, ch_closed = False\<rparr>)"
proof -
  let ?c = "nextChan m"
  have wf: "wf_watchers m" by (rule wf_reachable [OF assms(1,2)])
  obtain m1 m2 m3 m4 where
    r1: "Watch p m = Inr ((?c, (p, 0)), m1)"
    and r2: "Watch p m1 = Inr ((Suc ?c, (p, 1)), m2)"
    and r3: "closeWatchLocked p 0 m2 = Inr m3"
    and r4: "Watch p m3 = Inr ((Suc (Suc ?c), (p, 1)), m4)"
    and e2: "watchers m2 = (watchers m)(p \<mapsto> [0 \<mapsto> ?c, 1 \<mapsto> Suc ?c])"
    and e3: "watchers m3 = (watchers m)(p \<mapsto> [1 \<mapsto> Suc ?c])"
    and e4: "watchers m4 = (watchers m)(p \<mapsto> [1 \<mapsto> Suc (Suc ?c)])"
    and n4: "nextChan m4 = Suc (Suc (Suc ?c))"
    and c1: "chanStore m4 (Suc ?c) = \<lparr>buf = snapshot_of m p, cap = 1, ch_closed = False\<rparr>"
    and c2: "chanStore m4 (Suc (Suc ?c)) = \<lparr>buf = snapshot_of m p, cap = 1, ch_closed = False\<rparr>"
    by (rule collision [OF assms(3)])
  from r3 have r3': "cancel (p, 0) m2 = Inr m3" by (simp add: cancel_def)
  have p2: "watchers m2 p = Some [0 \<mapsto> ?c, 1 \<mapsto> Suc ?c]" by (simp add: e2)
  have p4: "watchers m4 p = Some [1 \<mapsto> Suc (Suc ?c)]" by (simp add: e4)
  have "registered m4 \<subseteq> insert (Suc (Suc ?c)) (registered m)"
  proof (rule registered_subset)
    fix q ws i d assume a: "watchers m4 q = Some ws" "ws i = Some d"
    show "d \<in> registered m \<or> d = Suc (Suc ?c)"
    proof (cases "q = p")
      case True
      with a p4 have "[1 \<mapsto> Suc (Suc ?c)] i = Some d" by simp
      then show ?thesis by (simp split: if_splits)
    next
      case False
      with a(1) have "watchers m q = Some ws" by (simp add: e4)
      with a(2) show ?thesis by (auto intro: registeredI)
    qed
  qed
  moreover have "Suc ?c \<notin> registered m" using wf_below [OF wf, of "Suc ?c"] by auto
  ultimately have nr: "Suc ?c \<notin> registered m4" by auto
  then have orph: "orphan m4 (Suc ?c)" by (simp add: orphan_def n4)
  have l4: "[1 \<mapsto> Suc (Suc ?c)] (1 :: 64 word) = Some (Suc (Suc ?c))" by simp
  have o4: "\<not> ch_closed (chanStore m4 (Suc (Suc ?c)))" by (simp add: c2)
  let ?m5 = "m4\<lparr>watchers := (if [1 \<mapsto> Suc (Suc ?c)]((1 :: 64 word) := None) = Map.empty
                           then (watchers m4)(p := None)
                           else (watchers m4)(p \<mapsto> [1 \<mapsto> Suc (Suc ?c)]((1 :: 64 word) := None))),
            chanStore := (chanStore m4)(Suc (Suc ?c) := (chanStore m4 (Suc (Suc ?c)))\<lparr>ch_closed := True\<rparr>),
            trace := trace m4 @ [EvChanClose (Suc (Suc ?c))]\<rparr>"
  have "closeWatchLocked p 1 m4 = Inr ?m5" by (rule closeWatchLocked_present [OF p4 l4 o4])
  then have r5: "cancel (p, 1) m4 = Inr ?m5" by (simp add: cancel_def)
  have k1: "ch_closed (chanStore ?m5 (Suc (Suc ?c)))" by simp
  have k2: "\<not> ch_closed (chanStore ?m5 (Suc ?c))" by (simp add: c1)
  have ever: "\<forall>ops' m'. exec_all ops' m4 = Inr m' \<longrightarrow>
        chanStore m' (Suc ?c) = \<lparr>buf = snapshot_of m p, cap = 1, ch_closed = False\<rparr>"
  proof (intro allI impI)
    fix ops' m' assume "exec_all ops' m4 = Inr m'"
    from kept_exec_all [OF orph this] have "chanStore m' (Suc ?c) = chanStore m4 (Suc ?c)"
      by (simp add: kept_def)
    then show "chanStore m' (Suc ?c) = \<lparr>buf = snapshot_of m p, cap = 1, ch_closed = False\<rparr>"
      by (simp only: c1)
  qed
  show ?thesis
    by (intro exI [of _ m1] exI [of _ m2] exI [of _ m3] exI [of _ m4] exI [of _ ?m5] conjI)
      (rule r1 r2 r3' r4 p2 p4 nr r5 k1 k2 ever)+
qed

theorem identifier_collision_witness:
  "NewManager ex_cfg = Inr (init_Manager ex_cfg) \<and>
   exec_all [] (init_Manager ex_cfg) = Inr (init_Manager ex_cfg) \<and>
   watchers (init_Manager ex_cfg) ''web'' = None \<and>
   (\<exists>m1 m2 m3 m4 m5.
     Watch ''web'' (init_Manager ex_cfg) = Inr ((0, (''web'', 0)), m1) \<and>
     Watch ''web'' m1 = Inr ((1, (''web'', 1)), m2) \<and>
     cancel (''web'', 0) m2 = Inr m3 \<and>
     Watch ''web'' m3 = Inr ((2, (''web'', 1)), m4) \<and>
     watchers m4 ''web'' = Some [1 \<mapsto> 2] \<and>
     cancel (''web'', 1) m4 = Inr m5 \<and>
     ch_closed (chanStore m5 2) \<and>
     \<not> ch_closed (chanStore m5 1))"
proof -
  have h3: "watchers (init_Manager ex_cfg) ''web'' = None" by (simp add: init_fields)
  from identifier_collision [OF NewManager_ex exec_all_Nil h3]
  obtain m1 m2 m3 m4 m5 where
    "Watch ''web'' (init_Manager ex_cfg) = Inr ((nextChan (init_Manager ex_cfg), (''web'', 0)), m1)"
    "Watch ''web'' m1 = Inr ((Suc (nextChan (init_Manager ex_cfg)), (''web'', 1)), m2)"
    "cancel (''web'', 0) m2 = Inr m3"
    "Watch ''web'' m3 = Inr ((Suc (Suc (nextChan (init_Manager ex_cfg))), (''web'', 1)), m4)"
    "watchers m4 ''web'' = Some [1 \<mapsto> Suc (Suc (nextChan (init_Manager ex_cfg)))]"
    "cancel (''web'', 1) m4 = Inr m5"
    "ch_closed (chanStore m5 (Suc (Suc (nextChan (init_Manager ex_cfg)))))"
    "\<not> ch_closed (chanStore m5 (Suc (nextChan (init_Manager ex_cfg))))"
    by (elim exE conjE)
  then have "\<exists>m1 m2 m3 m4 m5.
     Watch ''web'' (init_Manager ex_cfg) = Inr ((0, (''web'', 0)), m1) \<and>
     Watch ''web'' m1 = Inr ((1, (''web'', 1)), m2) \<and>
     cancel (''web'', 0) m2 = Inr m3 \<and>
     Watch ''web'' m3 = Inr ((2, (''web'', 1)), m4) \<and>
     watchers m4 ''web'' = Some [1 \<mapsto> 2] \<and>
     cancel (''web'', 1) m4 = Inr m5 \<and>
     ch_closed (chanStore m5 2) \<and>
     \<not> ch_closed (chanStore m5 1)"
    by (intro exI [of _ m1] exI [of _ m2] exI [of _ m3] exI [of _ m4] exI [of _ m5])
      (simp add: init_fields numeral_2_eq_2)
  with NewManager_ex exec_all_Nil h3 show ?thesis by (intro conjI)
qed

subsection \<open>At most one live watch state per proxy\<close>

lemma tracked_one_live: "tracked_live m \<Longrightarrow> one_live m"
  unfolding tracked_live_def one_live_def by (metis option.inject)

lemma tracked_live_same: "same_states m m' \<Longrightarrow> tracked_live m \<Longrightarrow> tracked_live m'"
  by (simp add: same_states_def tracked_live_def)

lemma tracked_live_init: "tracked_live (init_Manager c)"
  by (simp add: tracked_live_def init_Manager_def)

lemma tracked_live_state_Close: "tracked_live m \<Longrightarrow> tracked_live (state_Close r m)"
  by (simp add: tracked_live_def state_Close_def live_def)

lemma none_live_after_Close:
  assumes "tracked_live m" and "proxies m p = Some r"
  shows "none_live (state_Close r m) p"
  using assms by (auto simp: tracked_live_def none_live_def state_Close_def live_def)

lemma none_live_untracked:
  assumes "tracked_live m" and "proxies m p = None"
  shows "none_live m p"
  using assms by (auto simp: tracked_live_def none_live_def)

lemma one_live_newState:
  assumes "one_live m"
  shows "one_live (newState ns token m)"
  using assms by (auto simp: one_live_def newState_def live_def less_Suc_eq)

lemma one_live_state_Watch_new:
  assumes "one_live m" and "none_live m (ID ns)"
  shows "one_live (state_Watch (nextState m) (newState ns token m))"
  using assms
  by (auto simp: one_live_def none_live_def newState_def state_Watch_def live_def less_Suc_eq)

lemma tracked_live_ensure_new:
  assumes "tracked_live m" and "none_live m (ID ns)"
  shows "tracked_live (snd (ensure_new env ns token m))"
  using assms
  by (auto simp: ensure_new_def tracked_live_def none_live_def newState_def state_Watch_def
      live_def Let_def less_Suc_eq)

lemma tracked_live_ensure:
  assumes "tracked_live m"
  shows "tracked_live (snd (ensureProxyServiceLocked env ns token m))"
proof (cases "proxies m (ID ns)")
  case None
  with assms show ?thesis
    by (simp add: ensureProxyServiceLocked_def tracked_live_ensure_new none_live_untracked)
next
  case (Some r)
  with assms show ?thesis
    by (simp add: ensureProxyServiceLocked_def tracked_live_ensure_new
        tracked_live_state_Close none_live_after_Close)
qed

lemma tracked_live_remove:
  assumes "tracked_live m"
  shows "tracked_live (removeProxyServiceLocked p m)"
  using assms
  by (auto simp: removeProxyServiceLocked_def tracked_live_def state_Close_def live_def Let_def
      split: option.splits)

lemma tracked_live_trace: "tracked_live m \<Longrightarrow> tracked_live (m\<lparr>trace := t\<rparr>)"
  by (simp add: tracked_live_def)

lemma tracked_live_ensure_step:
  assumes "tracked_live m"
  shows "tracked_live (ensure_step env st k m)"
proof (cases "Services st k")
  case None
  with assms show ?thesis by (simp add: ensure_step_def)
next
  case (Some svc)
  obtain e m' where r: "ensureProxyServiceLocked env svc (ServiceToken st k) m = (e, m')"
    by (cases "ensureProxyServiceLocked env svc (ServiceToken st k) m")
  with tracked_live_ensure [OF assms, of env svc "ServiceToken st k"]
  have "tracked_live m'" by simp
  with Some r assms show ?thesis
    by (auto simp: ensure_step_def tracked_live_trace split: option.splits)
qed

lemma tracked_live_remove_step:
  "tracked_live m \<Longrightarrow> tracked_live (remove_step st p m)"
  by (simp add: remove_step_def tracked_live_remove)

lemma fold_inv:
  assumes "\<And>x s. P s \<Longrightarrow> P (f x s)" and "P s"
  shows "P (fold f xs s)"
  using assms(2) by (induction xs arbitrary: s) (simp_all add: assms(1))

lemma tracked_live_pass:
  assumes "tracked_live m"
  shows "tracked_live (pass env st so po m)"
  unfolding pass_def ensure_all_def remove_all_def
  by (intro fold_inv [where P = tracked_live] tracked_live_ensure_step tracked_live_remove_step assms)

lemma tracked_live_close_state_step:
  assumes "tracked_live m"
  shows "tracked_live (close_state_step p m)"
  using assms
  by (auto simp: close_state_step_def tracked_live_def state_Close_def live_def Let_def
      split: option.splits)

lemma closeWatchLocked_states:
  "closeWatchLocked p i m = Inr m' \<Longrightarrow> same_states m m'"
  by (auto simp: closeWatchLocked_def chan_close_def same_states_def Let_def
      split: option.splits if_splits)

lemma same_states_refl: "same_states m m"
  by (simp add: same_states_def)

lemma same_states_trans: "same_states a b \<Longrightarrow> same_states b c \<Longrightarrow> same_states a c"
  by (simp add: same_states_def)

lemma range_loop_same_states:
  assumes "\<And>x s s'. f x s = Inr s' \<Longrightarrow> same_states s s'" and "range_loop f xs m = Inr m'"
  shows "same_states m m'"
proof -
  have "same_states m m" by (rule same_states_refl)
  then show ?thesis using assms(2)
  proof (rule range_loop_inv [where P = "same_states m" and f = f, rotated])
    fix x s s' assume "same_states m s" "f x s = Inr s'"
    then show "same_states m s'" using assms(1) same_states_trans by blast
  qed
qed

lemma close_watchers_step_states:
  "close_watchers_step pw m = Inr m' \<Longrightarrow> same_states m m'"
  unfolding close_watchers_step_def
  by (rule range_loop_same_states [where f = "closeWatchLocked (fst pw)"])
    (rule closeWatchLocked_states)

lemma notify_states:
  assumes "notify snap order m = Inr m'"
  shows "same_states m m'"
proof (cases "watchers m (ProxyID snap)")
  case None
  with assms show ?thesis by (simp add: notify_def same_states_refl)
next
  case (Some ws)
  with assms have l: "range_loop (\<lambda>k m'. case ws k of None \<Rightarrow> Inr m' | Some ch \<Rightarrow> chan_try_send ch snap m')
            order m = Inr m'"
    by (simp add: notify_def)
  show ?thesis
  proof (rule range_loop_same_states [OF _ l])
    fix x s s'
    assume "(case ws x of None \<Rightarrow> Inr s | Some ch \<Rightarrow> chan_try_send ch snap s) = Inr s'"
    then show "same_states s s'"
      by (auto simp: chan_try_send_def same_states_def split: option.splits if_splits)
  qed
qed

lemma tracked_live_Close:
  assumes "tracked_live m" and "Close wo po m = Inr m'"
  shows "tracked_live m'"
proof -
  from assms(2) obtain m1 m2 where s: "close_stateCh m = Inr m1"
    "range_loop close_watchers_step wo m1 = Inr m2" "m' = fold close_state_step po m2"
    by (auto simp: Close_def split: sum.splits)
  from s(1) have "same_states m m1"
    by (auto simp: close_stateCh_def same_states_def split: option.splits if_splits)
  moreover have "same_states m1 m2"
    by (rule range_loop_same_states [OF close_watchers_step_states s(2)])
  ultimately have "tracked_live m2" using assms(1) by (blast intro: tracked_live_same)
  then show ?thesis unfolding s(3)
    by (intro fold_inv [where P = tracked_live] tracked_live_close_state_step)
qed

lemma tracked_live_exec:
  assumes "tracked_live m" and "exec op m = Inr m'"
  shows "tracked_live m'"
proof (cases op)
  case (OpWatch p)
  with assms(2) Watch_result [of p m] have "same_states m m'"
    by (auto simp: same_states_def split: sum.splits)
  then show ?thesis using assms(1) by (rule tracked_live_same)
next
  case (OpCancel cf)
  with assms(2) have "same_states m m'" by (simp add: cancel_def closeWatchLocked_states)
  then show ?thesis using assms(1) by (rule tracked_live_same)
next
  case (OpNotify snap order)
  with assms(2) have "same_states m m'" by (simp add: notify_states)
  then show ?thesis using assms(1) by (rule tracked_live_same)
next
  case (OpPass env st so po)
  with assms show ?thesis by (auto intro: tracked_live_pass)
next
  case (OpClose wo po)
  with assms show ?thesis by (auto intro: tracked_live_Close)
next
  case (OpSnapshot x snap)
  with assms show ?thesis by (auto simp: tracked_live_def live_def)
qed

lemma tracked_live_reachable:
  assumes "NewManager c = Inr m0" and "exec_all ops m0 = Inr m"
  shows "tracked_live m"
proof -
  from assms(1) have "m0 = init_Manager c" by (auto simp: NewManager_def split: if_splits)
  then have "tracked_live m0" by (simp add: tracked_live_init)
  then show ?thesis
    using assms(2) [unfolded exec_all_def]
    by (rule range_loop_inv [where P = tracked_live and f = exec, rotated]) (rule tracked_live_exec)
qed

lemma refs_below_same: "same_states m m' \<Longrightarrow> refs_below m \<Longrightarrow> refs_below m'"
  by (simp add: same_states_def refs_below_def)

lemma refs_below_ensure_new:
  "refs_below m \<Longrightarrow> refs_below (snd (ensure_new env ns token m))"
  by (auto simp: ensure_new_def refs_below_def newState_def state_Watch_def Let_def less_Suc_eq)

lemma refs_below_state_Close: "refs_below m \<Longrightarrow> refs_below (state_Close r m)"
  by (simp add: refs_below_def state_Close_def)

lemma refs_below_ensure:
  "refs_below m \<Longrightarrow> refs_below (snd (ensureProxyServiceLocked env ns token m))"
  by (simp add: ensureProxyServiceLocked_def refs_below_ensure_new refs_below_state_Close
      split: option.splits)

lemma refs_below_trace: "refs_below m \<Longrightarrow> refs_below (m\<lparr>trace := t\<rparr>)"
  by (simp add: refs_below_def)

lemma refs_below_ensure_step:
  assumes "refs_below m"
  shows "refs_below (ensure_step env st k m)"
proof (cases "Services st k")
  case None
  with assms show ?thesis by (simp add: ensure_step_def)
next
  case (Some svc)
  obtain e m' where r: "ensureProxyServiceLocked env svc (ServiceToken st k) m = (e, m')"
    by (cases "ensureProxyServiceLocked env svc (ServiceToken st k) m")
  with refs_below_ensure [OF assms, of env svc "ServiceToken st k"]
  have "refs_below m'" by simp
  with Some r assms show ?thesis
    by (auto simp: ensure_step_def refs_below_trace split: option.splits)
qed

lemma refs_below_remove: "refs_below m \<Longrightarrow> refs_below (removeProxyServiceLocked p m)"
  by (auto simp: removeProxyServiceLocked_def refs_below_def state_Close_def Let_def
      split: option.splits if_splits)

lemma refs_below_remove_step: "refs_below m \<Longrightarrow> refs_below (remove_step st p m)"
  by (simp add: remove_step_def refs_below_remove)

lemma refs_below_pass: "refs_below m \<Longrightarrow> refs_below (pass env st so po m)"
  unfolding pass_def ensure_all_def remove_all_def
  by (intro fold_inv [where P = refs_below] refs_below_ensure_step refs_below_remove_step)

lemma refs_below_close_state_step: "refs_below m \<Longrightarrow> refs_below (close_state_step p m)"
  by (auto simp: close_state_step_def refs_below_def state_Close_def Let_def
      split: option.splits if_splits)

lemma refs_below_Close:
  assumes "refs_below m" and "Close wo po m = Inr m'"
  shows "refs_below m'"
proof -
  from assms(2) obtain m1 m2 where s: "close_stateCh m = Inr m1"
    "range_loop close_watchers_step wo m1 = Inr m2" "m' = fold close_state_step po m2"
    by (auto simp: Close_def split: sum.splits)
  from s(1) have "same_states m m1"
    by (auto simp: close_stateCh_def same_states_def split: option.splits if_splits)
  moreover have "same_states m1 m2"
    by (rule range_loop_same_states [OF close_watchers_step_states s(2)])
  ultimately have "refs_below m2" using assms(1) by (blast intro: refs_below_same)
  then show ?thesis unfolding s(3)
    by (intro fold_inv [where P = refs_below] refs_below_close_state_step)
qed

lemma refs_below_exec:
  assumes "refs_below m" and "exec op m = Inr m'"
  shows "refs_below m'"
proof (cases op)
  case (OpWatch p)
  with assms(2) Watch_result [of p m] have "same_states m m'"
    by (auto simp: same_states_def split: sum.splits)
  then show ?thesis using assms(1) by (rule refs_below_same)
next
  case (OpCancel cf)
  with assms(2) have "same_states m m'" by (simp add: cancel_def closeWatchLocked_states)
  then show ?thesis using assms(1) by (rule refs_below_same)
next
  case (OpNotify snap order)
  with assms(2) have "same_states m m'" by (simp add: notify_states)
  then show ?thesis using assms(1) by (rule refs_below_same)
next
  case (OpPass env st so po)
  with assms show ?thesis by (auto intro: refs_below_pass)
next
  case (OpClose wo po)
  with assms show ?thesis by (auto intro: refs_below_Close)
next
  case (OpSnapshot x snap)
  with assms show ?thesis by (auto simp: refs_below_def)
qed

lemma refs_below_reachable:
  assumes "NewManager c = Inr m0" and "exec_all ops m0 = Inr m"
  shows "refs_below m"
proof -
  from assms(1) have "m0 = init_Manager c" by (auto simp: NewManager_def split: if_splits)
  then have "refs_below m0" by (simp add: refs_below_def init_Manager_def)
  then show ?thesis
    using assms(2) [unfolded exec_all_def]
    by (rule range_loop_inv [where P = refs_below and f = exec, rotated]) (rule refs_below_exec)
qed

lemma ensure_new_trace:
  "trace (snd (ensure_new env ns token m)) =
     trace m @ (if newState_fails env ns token then [EvNewStateFailed (ID ns)]
                else if Watch_fails env ns token
                then [EvNewState (nextState m), EvStateWatchFailed (nextState m)]
                else [EvNewState (nextState m), EvStateWatch (nextState m), EvForward (nextState m)])"
  by (simp add: ensure_new_def newState_def state_Watch_def Let_def)

lemma ensure_new_old_state:
  "r < nextState m \<Longrightarrow> stateStore (snd (ensure_new env ns token m)) r = stateStore m r"
  by (simp add: ensure_new_def newState_def state_Watch_def Let_def)

text \<open>
  C2. Take a manager reached from \<^verbatim>\<open>NewManager\<close> by the operations of the manager, in which the
  identifier of \<open>ns\<close> is tracked. If the tracked watch state reports no change, the call
  returns nil and the manager is exactly as before. If it reports a change, the first call
  made is the \<^verbatim>\<open>Close\<close> of the tracked watch state, before any construction, and that watch
  state is closed in the result. No two live watch states belong to one proxy: not
  before the call, not after the close, not after the construction, not after the stream
  start that precedes the update of the map, and not in the result.
\<close>

theorem ensure_tracked_proxy:
  assumes "NewManager c = Inr m0" and "exec_all ops m0 = Inr m" and "proxies m (ID ns) = Some r"
  shows "(\<not> Changed env (stateStore m r) ns token \<longrightarrow>
            ensureProxyServiceLocked env ns token m = (None, m)) \<and>
         (Changed env (stateStore m r) ns token \<longrightarrow>
            trace (snd (ensureProxyServiceLocked env ns token m)) =
              trace m @ EvStateClose r #
                (if newState_fails env ns token then [EvNewStateFailed (ID ns)]
                 else if Watch_fails env ns token
                 then [EvNewState (nextState m), EvStateWatchFailed (nextState m)]
                 else [EvNewState (nextState m), EvStateWatch (nextState m), EvForward (nextState m)]) \<and>
            st_closed (stateStore (snd (ensureProxyServiceLocked env ns token m)) r) \<and>
            one_live (state_Close r m) \<and>
            one_live (newState ns token (state_Close r m)) \<and>
            one_live (state_Watch (nextState m) (newState ns token (state_Close r m))) \<and>
            one_live (snd (ensureProxyServiceLocked env ns token m))) \<and>
         one_live m"
proof (intro conjI impI)
  have tl: "tracked_live m" by (rule tracked_live_reachable [OF assms(1,2)])
  have rb: "refs_below m" by (rule refs_below_reachable [OF assms(1,2)])
  from rb assms(3) have lt: "r < nextState m" unfolding refs_below_def by blast
  let ?mc = "state_Close r m"
  have ns: "nextState ?mc = nextState m" by (simp add: state_Close_def)
  have tlc: "tracked_live ?mc" by (rule tracked_live_state_Close [OF tl])
  have nl: "none_live ?mc (ID ns)" by (rule none_live_after_Close [OF tl assms(3)])
  show "one_live m" by (rule tracked_one_live [OF tl])
  show "ensureProxyServiceLocked env ns token m = (None, m)"
    if "\<not> Changed env (stateStore m r) ns token"
    using that assms(3) by (simp add: ensureProxyServiceLocked_def)
  assume ch: "Changed env (stateStore m r) ns token"
  then have e: "ensureProxyServiceLocked env ns token m = ensure_new env ns token ?mc"
    using assms(3) by (simp add: ensureProxyServiceLocked_def)
  show "trace (snd (ensureProxyServiceLocked env ns token m)) =
              trace m @ EvStateClose r #
                (if newState_fails env ns token then [EvNewStateFailed (ID ns)]
                 else if Watch_fails env ns token
                 then [EvNewState (nextState m), EvStateWatchFailed (nextState m)]
                 else [EvNewState (nextState m), EvStateWatch (nextState m), EvForward (nextState m)])"
    unfolding e ensure_new_trace ns by (simp add: state_Close_def)
  show "st_closed (stateStore (snd (ensureProxyServiceLocked env ns token m)) r)"
    unfolding e using lt by (simp add: ensure_new_old_state ns) (simp add: state_Close_def)
  show "one_live ?mc" by (rule tracked_one_live [OF tlc])
  then show "one_live (newState ns token ?mc)" by (rule one_live_newState)
  show "one_live (state_Watch (nextState m) (newState ns token ?mc))"
    using one_live_state_Watch_new [OF tracked_one_live [OF tlc] nl, of token] by (simp only: ns)
  show "one_live (snd (ensureProxyServiceLocked env ns token m))"
    unfolding e by (rule tracked_one_live [OF tracked_live_ensure_new [OF tlc nl]])
qed

lemma tracking_web_reached:
  "exec_all [OpPass env_ok registry_proxy [''web''] [''web'']] (init_Manager ex_cfg) = Inr tracking_web"
  by (simp add: exec_all_def tracking_web_def)

theorem ensure_tracked_proxy_witness:
  "NewManager ex_cfg = Inr (init_Manager ex_cfg) \<and>
   exec_all [OpPass env_ok registry_proxy [''web''] [''web'']] (init_Manager ex_cfg) = Inr tracking_web \<and>
   proxies tracking_web (ID web_proxy) = Some 0 \<and>
   \<not> Changed env_ok (stateStore tracking_web 0) web_proxy ''T1'' \<and>
   ensureProxyServiceLocked env_ok web_proxy ''T1'' tracking_web = (None, tracking_web) \<and>
   Changed env_ok (stateStore tracking_web 0) web_proxy ''T2'' \<and>
   trace (snd (ensureProxyServiceLocked env_ok web_proxy ''T2'' tracking_web)) =
     trace tracking_web @ [EvStateClose 0, EvNewState 1, EvStateWatch 1, EvForward 1] \<and>
   st_closed (stateStore (snd (ensureProxyServiceLocked env_ok web_proxy ''T2'' tracking_web)) 0) \<and>
   one_live (snd (ensureProxyServiceLocked env_ok web_proxy ''T2'' tracking_web))"
proof -
  have h3: "proxies tracking_web (ID web_proxy) = Some 0"
    by (simp add: tracking_web_eval web_proxy_def)
  have u: "\<not> Changed env_ok (stateStore tracking_web 0) web_proxy ''T1''"
    by (simp add: env_ok_def state_Changed_def tracking_web_eval)
  have ch: "Changed env_ok (stateStore tracking_web 0) web_proxy ''T2''"
    by (simp add: env_ok_def state_Changed_def tracking_web_eval)
  have f: "\<not> newState_fails env_ok web_proxy ''T2''" "\<not> Watch_fails env_ok web_proxy ''T2''"
    by (simp_all add: env_ok_def)
  from ensure_tracked_proxy [OF NewManager_ex tracking_web_reached h3, of env_ok "''T1''"]
    ensure_tracked_proxy [OF NewManager_ex tracking_web_reached h3, of env_ok "''T2''"]
    u ch f h3
  show ?thesis
    by (simp add: NewManager_ex tracking_web_reached tracking_web_eval(2))
qed

end
